theory Spec2Isabelle
  imports Complex_Main "HOL-Library.Word"
begin

section \<open>Python and numpy primitives used by the notebooks\<close>

text \<open>
  Exceptions of the two notebooks as values. \<open>ValueError_shape s\<close> is the
  \<^verbatim>\<open>ValueError(f"Image patch doesn't have correct shape: {patch.shape}")\<close> of
  \<^verbatim>\<open>get_image_patch\<close>, carrying the offending shape; \<open>ValueError_unpack\<close> is the failed
  unpacking of a coordinate vector that does not have three entries; \<open>ValueError_stack\<close>
  is \<^verbatim>\<open>np.stack\<close> refusing an empty list or arrays of different shapes.
\<close>

datatype error =
    IndexError
  | KeyError
  | ValueError_unpack
  | ValueError_shape "nat list"
  | ValueError_stack
  | ValueError_enum
  | BadZipFile
  | TiffFileError

text \<open>Python's \<^verbatim>\<open>int(x)\<close> on a float: truncation toward zero.\<close>

definition py_int :: "real \<Rightarrow> int" where
  "py_int r = (if 0 \<le> r then \<lfloor>r\<rfloor> else \<lceil>r\<rceil>)"

text \<open>Indexing with one integer: negative indices count from the end, anything else out of
  range raises IndexError.\<close>

definition py_index :: "'a list \<Rightarrow> int \<Rightarrow> error + 'a" where
  "py_index xs i =
     (if 0 \<le> i \<and> i < int (length xs) then Inr (xs ! nat i)
      else if - int (length xs) \<le> i \<and> i < 0 then Inr (xs ! nat (int (length xs) + i))
      else Inl IndexError)"

text \<open>A slice bound of \<^verbatim>\<open>xs[a:b]\<close>: a negative bound is taken from the end, and the result
  is clamped to \<open>[0, len]\<close>.\<close>

definition slice_bound :: "nat \<Rightarrow> int \<Rightarrow> nat" where
  "slice_bound n i = (if i < 0 then nat (max 0 (int n + i)) else min (nat i) n)"

definition py_slice :: "'a list \<Rightarrow> int \<Rightarrow> int \<Rightarrow> 'a list" where
  "py_slice xs a b =
     (let s = slice_bound (length xs) a; e = slice_bound (length xs) b
      in take (e - s) (drop s xs))"

text \<open>The shape of \<^verbatim>\<open>np.array(rows)\<close> for a list of one-dimensional arrays: \<open>(0,)\<close> for
  the empty list, \<open>(n, m)\<close> for \<open>n\<close> rows of the same length \<open>m\<close>, and the one-dimensional
  object array \<open>(n,)\<close> for rows of different lengths.\<close>

definition np_shape :: "'a list list \<Rightarrow> nat list" where
  "np_shape rows =
     (case rows of
        [] \<Rightarrow> [0]
      | r # rs \<Rightarrow> if list_all (\<lambda>r'. length r' = length r) rs
                 then [length rows, length r] else [length rows])"

section \<open>The annotation notebook\<close>

subsection \<open>Cell states\<close>

datatype CellState = Interphase | Prometaphase | Metaphase | Anaphase | Apoptosis

fun "value" :: "CellState \<Rightarrow> int" where
  "value Interphase = 0"
| "value Prometaphase = 1"
| "value Metaphase = 2"
| "value Anaphase = 3"
| "value Apoptosis = 4"


text \<open>The members in definition order: what iterating over the enumeration yields.\<close>

definition CellState_members :: "CellState list" where
  "CellState_members = [Interphase, Prometaphase, Metaphase, Anaphase, Apoptosis]"

text \<open>\<^verbatim>\<open>CellState(v)\<close>: lookup of a member by value, ValueError when there is none.\<close>

definition CellState_of :: "int \<Rightarrow> error + CellState" where
  "CellState_of v =
     (case filter (\<lambda>s. value s = v) CellState_members of
        [] \<Rightarrow> Inl ValueError_enum
      | s # _ \<Rightarrow> Inr s)"

text \<open>The two key bindings act on the state held by the widget.\<close>

definition next_label :: "CellState \<Rightarrow> error + CellState" where
  "next_label state = CellState_of ((value state + 1) mod int (length CellState_members))"

definition previous_label :: "CellState \<Rightarrow> error + CellState" where
  "previous_label state = CellState_of ((value state - 1) mod int (length CellState_members))"

text \<open>Pressing a key several times in a row; an exception ends the sequence.\<close>

fun press :: "(CellState \<Rightarrow> error + CellState) \<Rightarrow> nat \<Rightarrow> CellState \<Rightarrow> error + CellState" where
  "press key 0 state = Inr state"
| "press key (Suc n) state =
     (case key state of Inl e \<Rightarrow> Inl e | Inr state' \<Rightarrow> press key n state')"

subsection \<open>Cropping a patch\<close>

record 'a image_layer =
  layer_name :: string
  visible :: bool
  metadata :: "(string \<times> string) list"
  data :: "'a list list list"

text \<open>
  \<^verbatim>\<open>get_image_patch(layers, coords, shape)\<close>. The movie is \<open>data\<close> of the first image
  layer, a list of frames, each a list of rows. The coordinates are the floats of the
  points layer.
\<close>

definition get_image_patch ::
  "'a image_layer list \<Rightarrow> real list \<Rightarrow> int \<Rightarrow> error + 'a list list" where
  "get_image_patch layers coords shape =
     (case map py_int coords of
        [frame, y_coo, x_coo] \<Rightarrow>
          (let pad = shape div 2 in
           case py_index layers 0 of
             Inl e \<Rightarrow> Inl e
           | Inr layer \<Rightarrow>
               (case py_index (data layer) frame of
                  Inl e \<Rightarrow> Inl e
                | Inr img \<Rightarrow>
                    (let patch = map (\<lambda>row. py_slice row (x_coo - pad) (x_coo + pad))
                                     (py_slice img (y_coo - pad) (y_coo + pad))
                     in if map int (np_shape patch) \<noteq> [shape, shape]
                        then Inl (ValueError_shape (np_shape patch))
                        else Inr patch)))
      | _ \<Rightarrow> Inl ValueError_unpack)"

subsection \<open>Exporting a session\<close>

text \<open>\<^verbatim>\<open>str(n)\<close> for a non-negative integer, as the f-strings format an index.\<close>

fun str_nat :: "nat \<Rightarrow> string" where
  "str_nat n =
     (if n < 10 then [char_of (48 + n)]
      else str_nat (n div 10) @ [char_of (48 + n mod 10)])"

declare str_nat.simps [simp del]

text \<open>A \<^verbatim>\<open>dict\<close> with its insertion order: assigning to a key that is present replaces
  the value in place.\<close>

fun dict_set :: "('k \<times> 'v) list \<Rightarrow> 'k \<Rightarrow> 'v \<Rightarrow> ('k \<times> 'v) list" where
  "dict_set [] k v = [(k, v)]"
| "dict_set ((k', v') # d) k v =
     (if k' = k then (k, v) # d else (k', v') # dict_set d k v)"

text \<open>The points layer: \<open>points_data\<close> is the array of coordinates, one row per point,
  \<open>points_ndim\<close> its second dimension, \<open>properties_State\<close> the label names of the points.\<close>

record points_layer =
  points_data :: "real list list"
  points_ndim :: nat
  properties_State :: "string list"

datatype 'a layer = Image "'a image_layer" | Points points_layer

text \<open>The values stored in \<^verbatim>\<open>export_data\<close>, and what an entry of a zip archive holds: the
  TIFF encoding of a two-dimensional array, or the text of the JSON log. The TIFF writer and
  reader are taken to be lossless, so an encoded patch is represented by the patch.\<close>

datatype json =
    JInt int
  | JObject "(string \<times> string) list"
  | JNumbers "real list"
  | JStrings "string list"

datatype 'a content = Tiff "'a list list" | Text "(string \<times> json) list"

type_synonym 'a archive = "(string \<times> 'a content) list"

definition image_layers_of :: "'a layer list \<Rightarrow> 'a image_layer list" where
  "image_layers_of layers =
     concat (map (\<lambda>l. case l of Image i \<Rightarrow> [i] | Points _ \<Rightarrow> []) layers)"

definition patch_filename :: "string \<Rightarrow> string \<Rightarrow> nat \<Rightarrow> string" where
  "patch_filename patch_label SESSION_TIME idx =
     patch_label @ ''/'' @ patch_label @ ''_'' @ SESSION_TIME @ ''_'' @ str_nat idx @ ''.tif''"

text \<open>The loop over \<^verbatim>\<open>enumerate(points_layer.data)\<close> inside the \<^verbatim>\<open>with ZipFile\<close> block.
  It returns the entries written so far and the exception that ended it, if any.\<close>

fun write_patches ::
  "'a image_layer list \<Rightarrow> string \<Rightarrow> string list \<Rightarrow> int \<Rightarrow> nat \<Rightarrow> real list list
     \<Rightarrow> 'a archive \<Rightarrow> 'a archive \<times> error option" where
  "write_patches image_layers SESSION_TIME states shape idx [] myzip = (myzip, None)"
| "write_patches image_layers SESSION_TIME states shape idx (patch_coords # rest) myzip =
     (case py_index states (int idx) of
        Inl e \<Rightarrow> (myzip, Some e)
      | Inr patch_label \<Rightarrow>
          (case get_image_patch image_layers patch_coords shape of
             Inl e \<Rightarrow> (myzip, Some e)
           | Inr image_patch \<Rightarrow>
               write_patches image_layers SESSION_TIME states shape (Suc idx) rest
                 (myzip @ [(patch_filename patch_label SESSION_TIME idx, Tiff image_patch)])))"

definition export_data_of ::
  "'a image_layer list \<Rightarrow> points_layer \<Rightarrow> int \<Rightarrow> bool \<Rightarrow> (string \<times> json) list" where
  "export_data_of image_layers pts shape use_visible_layers =
     (let export_data = [(''shape'', JInt shape)];
          export_data =
            fold (\<lambda>layer d. if use_visible_layers \<and> visible layer
                             then dict_set d (layer_name layer) (JObject (metadata layer))
                             else d)
                 image_layers export_data;
          export_data =
            fold (\<lambda>idx d. dict_set d (''coords-'' @ str_nat idx)
                              (JNumbers (map (\<lambda>p. p ! idx) (points_data pts))))
                 [0..<points_ndim pts] export_data
      in dict_set export_data ''labels'' (JStrings (properties_State pts)))"

text \<open>
  \<^verbatim>\<open>cnn_annotation_widget\<close>, the export callback. The result is the zip file left on disk
  (its name and entries; the \<^verbatim>\<open>with\<close> block closes the archive also when an exception
  leaves it) and the exception that escaped, if any.
\<close>

definition cnn_annotation_widget ::
  "string \<Rightarrow> 'a layer list \<Rightarrow> points_layer \<Rightarrow> int \<Rightarrow> bool
     \<Rightarrow> (string \<times> 'a archive) \<times> error option" where
  "cnn_annotation_widget SESSION_TIME viewer_layers pts shape use_visible_layers =
     (let SESSION_NAME = ''annotation_'' @ SESSION_TIME;
          image_layers = image_layers_of viewer_layers;
          export_data = export_data_of image_layers pts shape use_visible_layers
      in case write_patches image_layers SESSION_TIME (properties_State pts) shape 0
                (points_data pts) [] of
           (myzip, Some e) \<Rightarrow> ((SESSION_NAME @ ''.zip'', myzip), Some e)
         | (myzip, None) \<Rightarrow>
             ((SESSION_NAME @ ''.zip'', myzip @ [(SESSION_NAME @ ''.json'', Text export_data)]),
              None))"

section \<open>The training notebook: building the record file\<close>

definition LABELS :: "string list" where
  "LABELS = [''Interphase'', ''Prometaphase'', ''Metaphase'', ''Anaphase'', ''Apoptosis'']"

text \<open>String methods, on ASCII.\<close>

definition upper :: "char \<Rightarrow> char" where
  "upper c = (let n = of_char c :: nat in if 97 \<le> n \<and> n \<le> 122 then char_of (n - 32) else c)"

definition lower :: "char \<Rightarrow> char" where
  "lower c = (let n = of_char c :: nat in if 65 \<le> n \<and> n \<le> 90 then char_of (n + 32) else c)"

definition capitalize :: "string \<Rightarrow> string" where
  "capitalize s = (case s of [] \<Rightarrow> [] | c # cs \<Rightarrow> upper c # map lower cs)"

fun startswith :: "string \<Rightarrow> string \<Rightarrow> bool" where
  "startswith s [] = True"
| "startswith [] (p # ps) = False"
| "startswith (c # cs) (p # ps) = (c = p \<and> startswith cs ps)"

definition endswith :: "string \<Rightarrow> string \<Rightarrow> bool" where
  "endswith s p = startswith (rev s) (rev p)"

text \<open>A file of the root directory: a zip archive, or something \<^verbatim>\<open>ZipFile\<close> rejects.\<close>

datatype 'a dir_file = ZipArchive "'a archive" | NotAZip

text \<open>\<^verbatim>\<open>zip_data.open(f)\<close> finds the last entry written under the name; \<^verbatim>\<open>imread\<close> decodes
  a TIFF stream.\<close>

definition zip_open :: "'a archive \<Rightarrow> string \<Rightarrow> error + 'a content" where
  "zip_open zip_data f =
     (case map_of (rev zip_data) f of None \<Rightarrow> Inl KeyError | Some c \<Rightarrow> Inr c)"

definition imread :: "'a content \<Rightarrow> error + 'a list list" where
  "imread c = (case c of Tiff img \<Rightarrow> Inr img | Text _ \<Rightarrow> Inl TiffFileError)"

text \<open>The comprehension \<^verbatim>\<open>[imread(zip_data.open(f)) for f in patch_files]\<close>.\<close>

fun read_images :: "'a archive \<Rightarrow> string list \<Rightarrow> error + 'a list list list" where
  "read_images zip_data [] = Inr []"
| "read_images zip_data (f # fs) =
     (case zip_open zip_data f of
        Inl e \<Rightarrow> Inl e
      | Inr c \<Rightarrow>
          (case imread c of
             Inl e \<Rightarrow> Inl e
           | Inr img \<Rightarrow>
               (case read_images zip_data fs of
                  Inl e \<Rightarrow> Inl e
                | Inr imgs \<Rightarrow> Inr (img # imgs))))"

definition patch_files :: "string \<Rightarrow> string list \<Rightarrow> string list" where
  "patch_files label files =
     filter (\<lambda>f. endswith f ''.tif'' \<and> startswith f (capitalize label)) files"

text \<open>
  \<^verbatim>\<open>skimage.transform.resize\<close> is a parameter of the model: \<open>resize img output_shape
  preserve_range\<close> is the float array it returns. So is the cast \<^verbatim>\<open>astype(np.uint8)\<close> of one
  float.
\<close>

type_synonym 'a resize_fn = "'a list list \<Rightarrow> nat \<times> nat \<Rightarrow> bool \<Rightarrow> real list list"

text \<open>The loop over \<^verbatim>\<open>enumerate(labels)\<close> for one archive, with the two accumulators.\<close>

fun label_loop ::
  "'a resize_fn \<Rightarrow> 'a archive \<Rightarrow> (nat \<times> string) list
     \<Rightarrow> real list list list \<times> nat list \<Rightarrow> error + real list list list \<times> nat list" where
  "label_loop resize zip_data [] acc = Inr acc"
| "label_loop resize zip_data ((numeric_label, label) # rest) (images_acc, labels_acc) =
     (let files = map fst zip_data;
          patch_files = patch_files label files
      in case read_images zip_data patch_files of
           Inl e \<Rightarrow> Inl e
         | Inr images \<Rightarrow>
             (let images_resized = map (\<lambda>img. resize img (64, 64) True) images
              in label_loop resize zip_data rest
                   (images_acc @ images_resized,
                    labels_acc @ replicate (length images_resized) numeric_label)))"

text \<open>The loop over the zip files.\<close>

fun zip_loop ::
  "'a resize_fn \<Rightarrow> string list \<Rightarrow> (string \<times> 'a dir_file) list
     \<Rightarrow> real list list list \<times> nat list \<Rightarrow> error + real list list list \<times> nat list" where
  "zip_loop resize labels [] acc = Inr acc"
| "zip_loop resize labels ((zfn, zf) # rest) acc =
     (case zf of
        NotAZip \<Rightarrow> Inl BadZipFile
      | ZipArchive zip_data \<Rightarrow>
          (case label_loop resize zip_data (enumerate 0 labels) acc of
             Inl e \<Rightarrow> Inl e
           | Inr acc' \<Rightarrow> zip_loop resize labels rest acc'))"

text \<open>\<^verbatim>\<open>np.stack(arrays, axis=0)\<close> needs at least one array and arrays of one shape.\<close>

definition np_stack :: "'b list list list \<Rightarrow> error + 'b list list list" where
  "np_stack arrays =
     (case arrays of
        [] \<Rightarrow> Inl ValueError_stack
      | a # as \<Rightarrow> if list_all (\<lambda>b. np_shape b = np_shape a) as
                 then Inr arrays else Inl ValueError_stack)"

definition np_stack_scalars :: "'b list \<Rightarrow> error + 'b list" where
  "np_stack_scalars xs = (if xs = [] then Inl ValueError_stack else Inr xs)"

text \<open>What \<^verbatim>\<open>write_dataset\<close> is given: the file name, the images as uint8 and the labels as
  int64.\<close>

record tfrecord =
  record_filename :: string
  record_images :: "8 word list list list list"
  record_labels :: "64 word list"

definition write_dataset :: "string \<Rightarrow> 8 word list list list list \<Rightarrow> 64 word list \<Rightarrow> tfrecord" where
  "write_dataset filename images labels =
     \<lparr>record_filename = filename, record_images = images, record_labels = labels\<rparr>"

definition create_tf_record ::
  "'a resize_fn \<Rightarrow> (real \<Rightarrow> 8 word) \<Rightarrow> (string \<times> 'a dir_file) list \<Rightarrow> string \<Rightarrow> string list
     \<Rightarrow> error + tfrecord" where
  "create_tf_record resize astype_uint8 root_dir filename labels =
     (let zipfiles = filter (\<lambda>(f, _). endswith f ''.zip'' \<and> startswith f ''annotation_'') root_dir
      in case zip_loop resize labels zipfiles ([], []) of
           Inl e \<Rightarrow> Inl e
         | Inr (images_acc, labels_acc) \<Rightarrow>
             (case np_stack images_acc of
                Inl e \<Rightarrow> Inl e
              | Inr stacked \<Rightarrow>
                  (let images_arr = map (map (map (\<lambda>v. [v]))) stacked
                   in case np_stack_scalars labels_acc of
                        Inl e \<Rightarrow> Inl e
                      | Inr labels_arr \<Rightarrow>
                          Inr (write_dataset filename
                                 (map (map (map (map astype_uint8))) images_arr)
                                 (map of_nat labels_arr)))))"

text \<open>Two concrete instances of the parameters, to run the model on concrete inputs:
  nearest-neighbour sampling (the library interpolates), and the cast of an in-range float.\<close>

definition resize_nearest :: "nat resize_fn" where
  "resize_nearest img output_shape preserve_range =
     (case output_shape of
        (h, w) \<Rightarrow>
          map (\<lambda>r. map (\<lambda>c. let row = (if img = [] then [] else img ! (r * length img div h))
                            in if row = [] then 0 else real (row ! (c * length row div w)))
                        [0..<w])
              [0..<h])"

definition astype_uint8_trunc :: "real \<Rightarrow> 8 word" where
  "astype_uint8_trunc v = word_of_int (py_int v)"

section \<open>What the loops accumulate, stated declaratively\<close>

text \<open>
  \<open>tiff_image zip_data f\<close> is the array that \<^verbatim>\<open>imread(zip_data.open(f))\<close> returns when
  the entry decodes (and the empty array where the source raises). \<open>archive_patches\<close> lists
  the patches of one archive with their numeric labels in the order in which the two loops
  visit them: label by label in the order of \<^verbatim>\<open>labels\<close>, and for one label file by file in
  the order of the archive. \<open>resized\<close> and \<open>encode\<close> are the two steps a patch goes through
  on its way into the record.
\<close>

definition tiff_image :: "'a archive \<Rightarrow> string \<Rightarrow> 'a list list" where
  "tiff_image zip_data f =
     (case zip_open zip_data f of Inr (Tiff img) \<Rightarrow> img | _ \<Rightarrow> [])"

definition archive_patches :: "string list \<Rightarrow> 'a archive \<Rightarrow> ('a list list \<times> nat) list" where
  "archive_patches labels zip_data =
     concat (map (\<lambda>(k, l). map (\<lambda>f. (tiff_image zip_data f, k))
                                 (patch_files l (map fst zip_data)))
                 (enumerate 0 labels))"

definition resized :: "'a resize_fn \<Rightarrow> 'a list list \<times> nat \<Rightarrow> real list list \<times> nat" where
  "resized resize p = (resize (fst p) (64, 64) True, snd p)"

definition encode ::
  "(real \<Rightarrow> 8 word) \<Rightarrow> real list list \<times> nat \<Rightarrow> 8 word list list list \<times> 64 word" where
  "encode astype_uint8 p = (map (map (\<lambda>v. [astype_uint8 v])) (fst p), of_nat (snd p))"

definition is_annotation_zip :: "string \<times> 'a dir_file \<Rightarrow> bool" where
  "is_annotation_zip e = (endswith (fst e) ''.zip'' \<and> startswith (fst e) ''annotation_'')"

section \<open>Sample data\<close>

text \<open>A one-frame movie of six rows and six columns whose pixel in row \<open>r\<close>, column \<open>c\<close>
  is \<open>10 r + c\<close>, used to run the functions on concrete inputs.\<close>

definition demo_layer :: "nat image_layer" where
  "demo_layer = \<lparr>layer_name = ''GFP'', visible = True,
                  metadata = [(''filename'', ''movie.tif'')],
                  data = [[[ 0,  1,  2,  3,  4,  5],
                           [10, 11, 12, 13, 14, 15],
                           [20, 21, 22, 23, 24, 25],
                           [30, 31, 32, 33, 34, 35],
                           [40, 41, 42, 43, 44, 45],
                           [50, 51, 52, 53, 54, 55]]]\<rparr>"

text \<open>The session archive that exporting the two points of \<open>demo_points\<close> (below) with
  patch size 2 writes, in a directory that also holds a file that is not an archive.\<close>

definition demo_zip :: "nat archive" where
  "demo_zip =
     [(''Metaphase/Metaphase_t_0.tif'', Tiff [[21, 22], [31, 32]]),
      (''Interphase/Interphase_t_1.tif'', Tiff [[12, 13], [22, 23]]),
      (''annotation_t.json'',
       Text [(''shape'', JInt 2),
             (''GFP'', JObject [(''filename'', ''movie.tif'')]),
             (''coords-0'', JNumbers [0, 0]),
             (''coords-1'', JNumbers [3, 5 / 2]),
             (''coords-2'', JNumbers [2, 7 / 2]),
             (''labels'', JStrings [''Metaphase'', ''Interphase''])])]"

definition demo_root :: "(string \<times> nat dir_file) list" where
  "demo_root = [(''annotation_t.zip'', ZipArchive demo_zip), (''notes.txt'', NotAZip)]"

text \<open>Two annotated points inside the frame, and one point three rows above it.\<close>

definition demo_points :: points_layer where
  "demo_points = \<lparr>points_data = [[0, 3, 2], [0, 5 / 2, 7 / 2]], points_ndim = 3,
                   properties_State = [''Metaphase'', ''Interphase'']\<rparr>"

definition outside_points :: points_layer where
  "outside_points = \<lparr>points_data = [[0, - 3, 2]], points_ndim = 3,
                      properties_State = [''Interphase'']\<rparr>"







section \<open>Slices, indices and shapes\<close>

lemma length_py_slice_le:
  "a \<le> b \<Longrightarrow> int (length (py_slice xs a b)) \<le> b - a"
  by (auto simp: py_slice_def slice_bound_def Let_def)

lemma py_slice_inside:
  assumes "0 \<le> a" "a \<le> b" "b \<le> int (length xs)"
  shows "py_slice xs a b = take (nat (b - a)) (drop (nat a) xs)"
  using assms by (auto simp: py_slice_def slice_bound_def Let_def min_def nat_diff_distrib)

lemma length_py_slice_inside:
  assumes "0 \<le> a" "a \<le> b" "b \<le> int (length xs)"
  shows "length (py_slice xs a b) = nat (b - a)"
  using assms by (simp add: py_slice_inside)

lemma nth_py_slice_inside:
  assumes "0 \<le> a" "a \<le> b" "b \<le> int (length xs)" "i < nat (b - a)"
  shows "py_slice xs a b ! i = xs ! (nat a + i)"
  using assms by (simp add: py_slice_inside)

lemma set_py_slice: "set (py_slice xs a b) \<subseteq> set xs"
  by (auto simp: py_slice_def Let_def dest!: in_set_takeD in_set_dropD)

lemma length_py_slice_outside:
  assumes "0 \<le> y" "y < int (length xs)" "0 < p" "y - p < 0 \<or> int (length xs) < y + p"
  shows "int (length (py_slice xs (y - p) (y + p))) < 2 * p"
  using assms by (auto simp: py_slice_def slice_bound_def Let_def min_def max_def)

lemma py_int_of_int [simp]: "py_int (of_int k) = k"
  by (simp add: py_int_def)

lemma py_int_nonneg: "0 \<le> r \<Longrightarrow> py_int r = \<lfloor>r\<rfloor>"
  by (simp add: py_int_def)

lemma py_index_Cons_0 [simp]: "py_index (x # xs) 0 = Inr x"
  by (simp add: py_index_def)

lemma py_index_inside: "0 \<le> i \<Longrightarrow> i < int (length xs) \<Longrightarrow> py_index xs i = Inr (xs ! nat i)"
  by (simp add: py_index_def)

lemma py_index_valid:
  "- int (length xs) \<le> i \<Longrightarrow> i < int (length xs) \<Longrightarrow> \<exists>x. py_index xs i = Inr x"
  by (simp add: py_index_def)

lemma np_shape_rect:
  assumes "rows \<noteq> []" "\<forall>r \<in> set rows. length r = m"
  shows "np_shape rows = [length rows, m]"
  using assms by (cases rows) (auto simp: np_shape_def list_all_iff)

lemma np_shape_cases:
  "np_shape rows = [0] \<and> rows = [] \<or> np_shape rows = [length rows] \<and> rows \<noteq> [] \<or>
   np_shape rows = [length rows, length (hd rows)] \<and> rows \<noteq> []"
  by (cases rows) (auto simp: np_shape_def)

lemma crop_shape:
  assumes rect: "\<forall>row \<in> set img. length row = W"
      and p: "0 < p"
      and ywin: "0 \<le> y - p" "y + p \<le> int (length img)"
      and xwin: "0 \<le> x - p" "x + p \<le> int W"
  shows "np_shape (map (\<lambda>row. py_slice row (x - p) (x + p)) (py_slice img (y - p) (y + p)))
         = [nat (2 * p), nat (2 * p)]"
proof -
  let ?rows = "py_slice img (y - p) (y + p)"
  have len: "length ?rows = nat (2 * p)"
    using ywin p by (simp add: length_py_slice_inside)
  have "\<forall>r \<in> set ?rows. length r = W"
    using rect set_py_slice [of img] by blast
  then have "\<forall>r \<in> set (map (\<lambda>row. py_slice row (x - p) (x + p)) ?rows). length r = nat (2 * p)"
    using xwin p by (auto simp: length_py_slice_inside)
  moreover have "map (\<lambda>row. py_slice row (x - p) (x + p)) ?rows \<noteq> []"
    using len p by auto
  ultimately have "np_shape (map (\<lambda>row. py_slice row (x - p) (x + p)) ?rows)
      = [length (map (\<lambda>row. py_slice row (x - p) (x + p)) ?rows), nat (2 * p)]"
    by (intro np_shape_rect)
  then show ?thesis
    using len by simp
qed

section \<open>Cycling through the labels\<close>

text \<open>
  Claim C5. For every current state with value \<open>v\<close>, the key \<^verbatim>\<open>.\<close> sets the state to the one
  with value \<open>(v + 1) mod 5\<close> and the key \<^verbatim>\<open>,\<close> to the one with value \<open>(v - 1) mod 5\<close>; neither
  raises. Pressing \<^verbatim>\<open>.\<close> then \<^verbatim>\<open>,\<close>, or \<^verbatim>\<open>,\<close> then \<^verbatim>\<open>.\<close>, restores the state, and so do five
  presses of either key.
\<close>

theorem label_cycling:
  "(\<exists>s'. next_label s = Inr s' \<and> value s' = (value s + 1) mod 5
         \<and> previous_label s' = Inr s)
   \<and> (\<exists>s'. previous_label s = Inr s' \<and> value s' = (value s - 1) mod 5
         \<and> next_label s' = Inr s)
   \<and> press next_label 5 s = Inr s
   \<and> press previous_label 5 s = Inr s"
  by (cases s)
     (simp_all add: next_label_def previous_label_def CellState_of_def CellState_members_def
        eval_nat_numeral)

section \<open>Cropping\<close>


lemma demo_crop_fractional:
  "get_image_patch [demo_layer] [1 / 2, 7 / 2, 5 / 2] 2 = Inr [[21, 22], [31, 32]]"
  by code_simp

lemma demo_crop_odd: "get_image_patch [demo_layer] [0, 3, 2] 3 = Inl (ValueError_shape [2, 2])"
  by code_simp

text \<open>
  Claim C2, amended. For a valid frame index, a positive even patch size and a point whose
  crop window \<open>[y - shape div 2, y + shape div 2) \<times> [x - shape div 2, x + shape div 2)\<close> lies
  inside the frame, \<open>get_image_patch\<close> returns a patch of \<open>shape\<close> rows and \<open>shape\<close> columns
  whose element \<open>(i, j)\<close> is the frame pixel in row \<open>y - shape div 2 + i\<close>, column
  \<open>x - shape div 2 + j\<close>. Only the first image layer is read.
\<close>

theorem get_image_patch_centered_crop:
  assumes frame: "0 \<le> t" "t < int (length (data layer))"
      and img: "img = data layer ! nat t"
      and rect: "\<forall>row \<in> set img. length row = W"
      and shape: "0 < shape" "even shape"
      and ywin: "0 \<le> y - shape div 2" "y + shape div 2 \<le> int (length img)"
      and xwin: "0 \<le> x - shape div 2" "x + shape div 2 \<le> int W"
  shows "\<exists>patch. get_image_patch (layer # layers) [of_int t, of_int y, of_int x] shape = Inr patch
           \<and> length patch = nat shape
           \<and> (\<forall>i < nat shape. length (patch ! i) = nat shape
                \<and> (\<forall>j < nat shape.
                      patch ! i ! j = img ! (nat (y - shape div 2) + i) ! (nat (x - shape div 2) + j)))"
proof -
  let ?p = "shape div 2"
  have p: "0 < ?p" "2 * ?p = shape"
    using shape by (auto elim: evenE)
  let ?rows = "py_slice img (y - ?p) (y + ?p)"
  let ?patch = "map (\<lambda>row. py_slice row (x - ?p) (x + ?p)) ?rows"
  have sh: "np_shape ?patch = [nat shape, nat shape]"
    using crop_shape [OF rect p(1) ywin xwin] p by simp
  have res: "get_image_patch (layer # layers) [of_int t, of_int y, of_int x] shape = Inr ?patch"
    using frame img sh shape
    by (simp add: get_image_patch_def py_index_inside Let_def)
  have len: "length ?rows = nat shape"
    using ywin p by (simp add: length_py_slice_inside)
  have rows: "?rows ! i = img ! (nat (y - ?p) + i)" if "i < nat shape" for i
    using that ywin p by (intro nth_py_slice_inside) auto
  have inrows: "?rows ! i \<in> set img" if "i < nat shape" for i
  proof -
    have "?rows ! i \<in> set ?rows"
      using that len by (intro nth_mem) simp
    then show ?thesis
      using set_py_slice [of img] by blast
  qed
  have cell: "length (?patch ! i) = nat shape
              \<and> (\<forall>j < nat shape. ?patch ! i ! j = img ! (nat (y - ?p) + i) ! (nat (x - ?p) + j))"
    if i: "i < nat shape" for i
  proof -
    have W: "length (?rows ! i) = W"
      using rect inrows [OF i] by blast
    have 1: "length (py_slice (?rows ! i) (x - ?p) (x + ?p)) = nat shape"
      using xwin p W by (simp add: length_py_slice_inside)
    have 2: "py_slice (?rows ! i) (x - ?p) (x + ?p) ! j = (?rows ! i) ! (nat (x - ?p) + j)"
      if "j < nat shape" for j
      using that xwin p W by (intro nth_py_slice_inside) auto
    show ?thesis
      using i len 1 2 rows [OF i] by simp
  qed
  have "length ?patch = nat shape"
    using len by simp
  with res cell show ?thesis
    by blast
qed


theorem get_image_patch_centered_crop_witness:
  "\<exists>patch. get_image_patch [demo_layer] [0, 3, 2] 4 = Inr patch
      \<and> length patch = 4
      \<and> (\<forall>i < 4. length (patch ! i) = 4
           \<and> (\<forall>j < 4. patch ! i ! j = data demo_layer ! 0 ! (1 + i) ! (0 + j)))"
  using get_image_patch_centered_crop [of 0 demo_layer "data demo_layer ! 0" 6 4 3 2 "[]"]
  by (simp add: demo_layer_def)

text \<open>
  The claim as written also covers the even patch size 0, whose empty crop window lies inside
  every frame. There the crop is \<^verbatim>\<open>np.array([])\<close> of shape \<open>(0,)\<close>, which is not \<open>(0, 0)\<close>, and
  the function raises.
\<close>

theorem get_image_patch_zero_shape_counterexample:
  "even (0::int) \<and> (0::int) \<le> 3 - 0 div 2 \<and> (3::int) + 0 div 2 \<le> 6
   \<and> (0::int) \<le> 2 - 0 div 2 \<and> (2::int) + 0 div 2 \<le> 6
   \<and> get_image_patch [demo_layer] [0, 3, 2] 0 = Inl (ValueError_shape [0])"
  by code_simp

lemma odd_shape_never_matches:
  assumes "odd shape"
  shows "map int (np_shape (map f (py_slice img (y - shape div 2) (y + shape div 2)))) \<noteq> [shape, shape]"
proof
  let ?rows = "py_slice img (y - shape div 2) (y + shape div 2)"
  assume eq: "map int (np_shape (map f ?rows)) = [shape, shape]"
  from np_shape_cases [of "map f ?rows"] eq
  have n: "int (length ?rows) = shape" and ne: "?rows \<noteq> []"
    by auto
  then have pos: "0 < shape" by (cases ?rows) auto
  then have "y - shape div 2 \<le> y + shape div 2" by simp
  from length_py_slice_le [OF this, of img] n have "shape \<le> 2 * (shape div 2)" by simp
  with assms show False by presburger
qed


text \<open>
  Claim C8. For an odd patch size \<open>get_image_patch\<close> never returns a patch, whatever the
  layers and coordinates; and whenever the frame index selects a frame of the first layer, the
  exception is the ValueError of the shape check, raised with a shape other than
  \<open>(shape, shape)\<close>: the crop has at most \<open>2 * (shape div 2) = shape - 1\<close> rows.
\<close>

theorem get_image_patch_odd_shape_raises:
  assumes "odd shape"
  shows "get_image_patch layers coords shape \<noteq> Inr patch \<and>
         (layers \<noteq> [] \<and> - int (length (data (hd layers))) \<le> py_int t
            \<and> py_int t < int (length (data (hd layers))) \<longrightarrow>
          (\<exists>s. get_image_patch layers [t, y, x] shape = Inl (ValueError_shape s)
               \<and> map int s \<noteq> [shape, shape]))"
proof
  show "get_image_patch layers coords shape \<noteq> Inr patch"
    unfolding get_image_patch_def Let_def
    by (simp add: odd_shape_never_matches [OF assms] split: list.splits sum.splits)
next
  show "layers \<noteq> [] \<and> - int (length (data (hd layers))) \<le> py_int t
            \<and> py_int t < int (length (data (hd layers))) \<longrightarrow>
          (\<exists>s. get_image_patch layers [t, y, x] shape = Inl (ValueError_shape s)
               \<and> map int s \<noteq> [shape, shape])"
  proof
    assume a: "layers \<noteq> [] \<and> - int (length (data (hd layers))) \<le> py_int t
            \<and> py_int t < int (length (data (hd layers)))"
    then obtain layer ls where l: "layers = layer # ls" by (cases layers) auto
    from a l have "\<exists>img. py_index (data layer) (py_int t) = Inr img"
      by (simp add: py_index_valid)
    then obtain img where i: "py_index (data layer) (py_int t) = Inr img" ..
    show "\<exists>s. get_image_patch layers [t, y, x] shape = Inl (ValueError_shape s)
               \<and> map int s \<noteq> [shape, shape]"
      using odd_shape_never_matches [OF assms] l i
      by (simp add: get_image_patch_def Let_def)
  qed
qed


theorem get_image_patch_odd_shape_raises_witness:
  "odd (3::int) \<and> get_image_patch [demo_layer] [0, 3, 2] 3 \<noteq> Inr [[21, 22], [31, 32]]
   \<and> (\<exists>s. get_image_patch [demo_layer] [0, 3, 2] 3 = Inl (ValueError_shape s)
          \<and> map int s \<noteq> [3, 3])"
  using get_image_patch_odd_shape_raises
          [of 3 "[demo_layer]" "[0, 3, 2]" "[[21, 22], [31, 32]]" 0 3 2]
  by (simp add: demo_layer_def py_int_def)

text \<open>A point inside the frame whose crop window crosses a border of the frame: the shape
  check fails.\<close>

lemma get_image_patch_window_outside_raises:
  assumes frame: "0 \<le> t" "t < int (length (data layer))"
      and img: "img = data layer ! nat t"
      and rect: "\<forall>row \<in> set img. length row = W"
      and shape: "0 < shape"
      and inside: "0 \<le> y" "y < int (length img)" "0 \<le> x" "x < int W"
      and window: "y - shape div 2 < 0 \<or> int (length img) < y + shape div 2
                 \<or> x - shape div 2 < 0 \<or> int W < x + shape div 2"
  shows "\<exists>s. get_image_patch (layer # layers) [of_int t, of_int y, of_int x] shape
              = Inl (ValueError_shape s)"
proof -
  let ?p = "shape div 2"
  let ?rows = "py_slice img (y - ?p) (y + ?p)"
  let ?patch = "map (\<lambda>row. py_slice row (x - ?p) (x + ?p)) ?rows"
  have ne: "map int (np_shape ?patch) \<noteq> [shape, shape]"
  proof (cases "odd shape")
    case True
    then show ?thesis by (rule odd_shape_never_matches)
  next
    case False
    then have p: "0 < ?p" "2 * ?p = shape"
      using shape by (auto elim: evenE)
    show ?thesis
    proof (cases "y - ?p < 0 \<or> int (length img) < y + ?p")
      case True
      from length_py_slice_outside [OF inside(1,2) p(1) True]
      have "int (length ?rows) < shape"
        using p(2) by simp
      then show ?thesis
        using np_shape_cases [of ?patch] shape by auto
    next
      case False
      then have ywin: "0 \<le> y - ?p" "y + ?p \<le> int (length img)"
        by simp_all
      with window have xout: "x - ?p < 0 \<or> int W < x + ?p"
        by auto
      have len: "length ?rows = nat shape"
        using ywin p by (simp add: length_py_slice_inside)
      then have nonempty: "?rows \<noteq> []"
        using shape by auto
      then have "hd ?rows \<in> set img"
        using set_py_slice [of img] hd_in_set by blast
      then have W: "length (hd ?rows) = W"
        using rect by blast
      have "int (length (py_slice (hd ?rows) (x - ?p) (x + ?p))) < 2 * ?p"
        using inside(3,4) p(1) xout W by (intro length_py_slice_outside) simp_all
      then have "int (length (hd ?patch)) < shape"
        using nonempty p(2) by (simp add: hd_map)
      then show ?thesis
        using np_shape_cases [of ?patch] by auto
    qed
  qed
  show ?thesis
    using frame img ne
    by (simp add: get_image_patch_def py_index_inside Let_def)
qed

text \<open>
  Claim C9. The coordinates are truncated toward zero before the crop: the patch of a point
  is the patch of the point with the truncated coordinates, and for non-negative coordinates
  that is the point \<open>(\<lfloor>t\<rfloor>, \<lfloor>y\<rfloor>, \<lfloor>x\<rfloor>)\<close>. Nothing is interpolated or rounded to nearest.
\<close>

theorem get_image_patch_truncates_coordinates:
  "get_image_patch layers [t, y, x] shape
     = get_image_patch layers [of_int (py_int t), of_int (py_int y), of_int (py_int x)] shape
   \<and> (0 \<le> t \<and> 0 \<le> y \<and> 0 \<le> x \<longrightarrow>
        get_image_patch layers [t, y, x] shape
          = get_image_patch layers [of_int \<lfloor>t\<rfloor>, of_int \<lfloor>y\<rfloor>, of_int \<lfloor>x\<rfloor>] shape)"
proof (intro conjI impI)
  show "get_image_patch layers [t, y, x] shape
     = get_image_patch layers [of_int (py_int t), of_int (py_int y), of_int (py_int x)] shape"
    by (simp add: get_image_patch_def)
next
  assume "0 \<le> t \<and> 0 \<le> y \<and> 0 \<le> x"
  then have "py_int t = \<lfloor>t\<rfloor>" "py_int y = \<lfloor>y\<rfloor>" "py_int x = \<lfloor>x\<rfloor>"
    by (simp_all add: py_int_nonneg)
  then show "get_image_patch layers [t, y, x] shape
          = get_image_patch layers [of_int \<lfloor>t\<rfloor>, of_int \<lfloor>y\<rfloor>, of_int \<lfloor>x\<rfloor>] shape"
    by (simp add: get_image_patch_def)
qed

theorem get_image_patch_truncates_coordinates_witness:
  "get_image_patch [demo_layer] [1 / 2, 7 / 2, 5 / 2] 2
     = get_image_patch [demo_layer] [of_int \<lfloor>1 / 2 :: real\<rfloor>, of_int \<lfloor>7 / 2 :: real\<rfloor>,
                                     of_int \<lfloor>5 / 2 :: real\<rfloor>] 2
   \<and> get_image_patch [demo_layer] [1 / 2, 7 / 2, 5 / 2] 2 = Inr [[21, 22], [31, 32]]"
proof (rule conjI)
  have nonneg: "(0::real) \<le> 1 / 2 \<and> (0::real) \<le> 7 / 2 \<and> (0::real) \<le> 5 / 2"
    by simp
  from get_image_patch_truncates_coordinates [of "[demo_layer]" "1 / 2" "7 / 2" "5 / 2" 2] nonneg
  show "get_image_patch [demo_layer] [1 / 2, 7 / 2, 5 / 2] 2
     = get_image_patch [demo_layer] [of_int \<lfloor>1 / 2 :: real\<rfloor>, of_int \<lfloor>7 / 2 :: real\<rfloor>,
                                     of_int \<lfloor>5 / 2 :: real\<rfloor>] 2"
    by blast
next
  show "get_image_patch [demo_layer] [1 / 2, 7 / 2, 5 / 2] 2 = Inr [[21, 22], [31, 32]]"
    by (rule demo_crop_fractional)
qed

section \<open>Building the record file\<close>

lemma read_images_Inr:
  "read_images z fs = Inr imgs \<Longrightarrow> imgs = map (tiff_image z) fs"
  by (induction fs arbitrary: imgs)
     (auto simp: tiff_image_def imread_def split: sum.splits content.splits)


lemma zip_map_replicate:
  "zip (map g xs) (replicate (length xs) k) = map (\<lambda>x. (g x, k)) xs"
  by (induction xs) simp_all

lemma label_loop_Inr:
  assumes "label_loop resize z kls (I, L) = Inr (I', L')" "length I = length L"
  shows "length I' = length L' \<and>
         zip I' L' = zip I L @ map (resized resize)
            (concat (map (\<lambda>(k, l). map (\<lambda>f. (tiff_image z f, k)) (patch_files l (map fst z))) kls))"
  using assms
proof (induction kls arbitrary: I L)
  case Nil
  then show ?case by simp
next
  case (Cons kl kls)
  obtain k l where kl: "kl = (k, l)" by (cases kl)
  from Cons.prems(1) kl obtain images where
    r: "read_images z (patch_files l (map fst z)) = Inr images" and
    rest: "label_loop resize z kls
             (I @ map (\<lambda>img. resize img (64, 64) True) images,
              L @ replicate (length images) k) = Inr (I', L')"
    by (auto simp: Let_def split: sum.splits)
  have len: "length (I @ map (\<lambda>img. resize img (64, 64) True) images)
             = length (L @ replicate (length images) k)"
    using Cons.prems(2) by simp
  have imgs: "images = map (tiff_image z) (patch_files l (map fst z))"
    using r by (rule read_images_Inr)
  have chunk: "zip (map (\<lambda>img. resize img (64, 64) True) images) (replicate (length images) k)
               = map (resized resize) (map (\<lambda>f. (tiff_image z f, k)) (patch_files l (map fst z)))"
    unfolding imgs by (simp add: zip_map_replicate resized_def comp_def)
  from Cons.IH [OF rest len] Cons.prems(2) chunk kl
  show ?case by simp
qed


lemma archive_patches_alt:
  "archive_patches labels z
   = concat (map (\<lambda>(k, l). map (\<lambda>f. (tiff_image z f, k)) (patch_files l (map fst z)))
                 (enumerate 0 labels))"
  by (simp add: archive_patches_def)

lemma zip_loop_Inr:
  assumes "zip_loop resize labels zfs (I, L) = Inr (I', L')" "length I = length L"
  shows "\<exists>zs. map snd zfs = map ZipArchive zs \<and> length I' = length L' \<and>
              zip I' L' = zip I L @ map (resized resize) (concat (map (archive_patches labels) zs))"
  using assms
proof (induction zfs arbitrary: I L)
  case Nil
  then show ?case by simp
next
  case (Cons zf zfs)
  obtain zfn df where zf: "zf = (zfn, df)" by (cases zf)
  from Cons.prems(1) zf obtain z I1 L1 where
    df: "df = ZipArchive z" and
    ll: "label_loop resize z (enumerate 0 labels) (I, L) = Inr (I1, L1)" and
    rest: "zip_loop resize labels zfs (I1, L1) = Inr (I', L')"
    by (auto split: dir_file.splits sum.splits)
  from label_loop_Inr [OF ll Cons.prems(2)]
  have len1: "length I1 = length L1"
    and z1: "zip I1 L1 = zip I L @ map (resized resize) (archive_patches labels z)"
    by (simp_all add: archive_patches_alt)
  from Cons.IH [OF rest len1] obtain zs where
    zs: "map snd zfs = map ZipArchive zs" "length I' = length L'"
        "zip I' L' = zip I1 L1 @ map (resized resize) (concat (map (archive_patches labels) zs))"
    by blast
  show ?case
    using zs z1 zf df by (intro exI [of _ "z # zs"]) simp
qed

lemma np_stack_Inr: "np_stack xs = Inr ys \<Longrightarrow> ys = xs \<and> xs \<noteq> []"
  by (auto simp: np_stack_def split: list.splits if_splits)

lemma np_stack_shapes:
  "np_stack xs = Inr ys \<Longrightarrow> \<forall>a \<in> set xs. np_shape a = np_shape (hd xs)"
  by (auto simp: np_stack_def list_all_iff split: list.splits if_splits)

lemma np_stack_scalars_Inr: "np_stack_scalars xs = Inr ys \<Longrightarrow> ys = xs"
  by (auto simp: np_stack_scalars_def split: if_splits)

text \<open>The record written by a successful run, in terms of the declarative list.\<close>

lemma create_tf_record_Inr:
  assumes "create_tf_record resize astype_uint8 root_dir filename labels = Inr rec"
  shows "\<exists>zs. map snd (filter is_annotation_zip root_dir) = map ZipArchive zs
           \<and> record_filename rec = filename
           \<and> length (record_images rec) = length (record_labels rec)
           \<and> zip (record_images rec) (record_labels rec)
               = map (encode astype_uint8 \<circ> resized resize)
                     (concat (map (archive_patches labels) zs))
           \<and> concat (map (archive_patches labels) zs) \<noteq> []"
proof -
  let ?zipfiles = "filter is_annotation_zip root_dir"
  have filt: "filter (\<lambda>(f, _). endswith f ''.zip'' \<and> startswith f ''annotation_'') root_dir
              = ?zipfiles"
    by (rule filter_cong) (auto simp: is_annotation_zip_def)
  from assms obtain I L where
    zl: "zip_loop resize labels ?zipfiles ([], []) = Inr (I, L)" and
    st: "np_stack I = Inr I" and
    sl: "np_stack_scalars L = Inr L" and
    rec: "rec = write_dataset filename
                  (map (map (map (map astype_uint8))) (map (map (map (\<lambda>v. [v]))) I))
                  (map of_nat L)"
    unfolding create_tf_record_def filt Let_def
    by (auto split: sum.splits prod.splits dest!: np_stack_Inr np_stack_scalars_Inr)
  from zip_loop_Inr [OF zl] obtain zs where
    zs: "map snd ?zipfiles = map ZipArchive zs" "length I = length L"
        "zip I L = map (resized resize) (concat (map (archive_patches labels) zs))"
    by auto
  have ne: "I \<noteq> []"
    using st by (auto dest: np_stack_Inr)
  have imgs: "record_images rec = map (\<lambda>a. map (map (\<lambda>v. [astype_uint8 v])) a) I"
    unfolding rec by (simp add: write_dataset_def comp_def)
  have lbls: "record_labels rec = map of_nat L"
    unfolding rec by (simp add: write_dataset_def)
  have "zip (record_images rec) (record_labels rec)
        = map (\<lambda>p. (map (map (\<lambda>v. [astype_uint8 v])) (fst p), of_nat (snd p))) (zip I L)"
    unfolding imgs lbls by (simp add: zip_map_map case_prod_unfold)
  also have "\<dots> = map (encode astype_uint8 \<circ> resized resize)
                     (concat (map (archive_patches labels) zs))"
    unfolding zs(3) by (simp add: encode_def comp_def)
  finally have z: "zip (record_images rec) (record_labels rec)
        = map (encode astype_uint8 \<circ> resized resize) (concat (map (archive_patches labels) zs))" .
  have "concat (map (archive_patches labels) zs) \<noteq> []"
  proof
    assume "concat (map (archive_patches labels) zs) = []"
    then have "zip I L = []" using zs(3) by simp
    then show False using zs(2) ne by (cases I; cases L) simp_all
  qed
  with zs(1,2) z imgs lbls rec show ?thesis
    by (intro exI [of _ zs]) (simp add: write_dataset_def)
qed

lemma label_loop_succeeds:
  assumes "\<forall>l \<in> snd ` set kls. \<not> isl (read_images z (patch_files l (map fst z)))"
  shows "\<exists>acc'. label_loop resize z kls acc = Inr acc'"
  using assms
proof (induction kls arbitrary: acc)
  case Nil
  then show ?case by simp
next
  case (Cons kl kls)
  obtain k l where kl: "kl = (k, l)" by (cases kl)
  obtain I L where acc: "acc = (I, L)" by (cases acc)
  from Cons.prems kl obtain images where
    r: "read_images z (patch_files l (map fst z)) = Inr images"
    by (cases "read_images z (patch_files l (map fst z))") auto
  from Cons.prems have "\<forall>l \<in> snd ` set kls. \<not> isl (read_images z (patch_files l (map fst z)))"
    by simp
  from Cons.IH [OF this] show ?case
    unfolding kl acc by (simp add: r Let_def)
qed

lemma snd_set_enumerate: "snd ` set (enumerate i xs) = set xs"
  using map_snd_enumerate [of i xs] by (metis set_map)

lemma fst_set_enumerate: "fst ` set (enumerate i xs) = {i..<i + length xs}"
  using map_fst_enumerate [of i xs] by (metis set_map set_upt)

lemma zip_loop_succeeds:
  assumes "map snd zfs = map ZipArchive zs"
      and "\<forall>z \<in> set zs. \<forall>l \<in> set labels. \<not> isl (read_images z (patch_files l (map fst z)))"
  shows "\<exists>acc'. zip_loop resize labels zfs acc = Inr acc'"
  using assms
proof (induction zfs arbitrary: zs acc)
  case Nil
  then show ?case by simp
next
  case (Cons zf zfs)
  obtain zfn df where zf: "zf = (zfn, df)" by (cases zf)
  from Cons.prems(1) zf obtain z zs' where zs: "zs = z # zs'" "df = ZipArchive z"
    "map snd zfs = map ZipArchive zs'"
    by (cases zs) auto
  have "\<forall>l \<in> snd ` set (enumerate 0 labels). \<not> isl (read_images z (patch_files l (map fst z)))"
    using Cons.prems(2) zs(1) by (simp add: snd_set_enumerate)
  from label_loop_succeeds [OF this] obtain acc1 where
    ll: "label_loop resize z (enumerate 0 labels) acc = Inr acc1" by blast
  have "\<forall>z \<in> set zs'. \<forall>l \<in> set labels. \<not> isl (read_images z (patch_files l (map fst z)))"
    using Cons.prems(2) zs(1) by simp
  from Cons.IH [OF zs(3) this] show ?case
    unfolding zf zs(2) by (simp add: ll)
qed

lemma np_stack_succeeds:
  assumes "xs \<noteq> []" "\<forall>a \<in> set xs. np_shape a = s"
  shows "np_stack xs = Inr xs"
  using assms by (cases xs) (auto simp: np_stack_def list_all_iff)

lemma create_tf_record_succeeds:
  assumes zs: "map snd (filter is_annotation_zip root_dir) = map ZipArchive zs"
      and decode: "\<forall>z \<in> set zs. \<forall>l \<in> set labels.
                     \<not> isl (read_images z (patch_files l (map fst z)))"
      and nonempty: "concat (map (archive_patches labels) zs) \<noteq> []"
      and contract: "\<forall>img. np_shape (resize img (64, 64) True) = [64, 64]"
  shows "\<exists>rec. create_tf_record resize astype_uint8 root_dir filename labels = Inr rec"
proof -
  let ?zipfiles = "filter is_annotation_zip root_dir"
  have filt: "filter (\<lambda>(f, _). endswith f ''.zip'' \<and> startswith f ''annotation_'') root_dir
              = ?zipfiles"
    by (rule filter_cong) (auto simp: is_annotation_zip_def)
  from zip_loop_succeeds [OF zs decode] obtain I L where
    zl: "zip_loop resize labels ?zipfiles ([], []) = Inr (I, L)"
    by (metis surj_pair)
  from zip_loop_Inr [OF zl] zs obtain zs' where
    zs': "map ZipArchive zs = map ZipArchive zs'" "length I = length L"
         "zip I L = map (resized resize) (concat (map (archive_patches labels) zs'))"
    by auto
  have "zs' = zs"
    using zs'(1) by (simp add: inj_on_def inj_map_eq_map [of ZipArchive])
  then have z: "zip I L = map (resized resize) (concat (map (archive_patches labels) zs))"
    using zs'(3) by simp
  have I: "I = map fst (zip I L)" and L: "L = map snd (zip I L)"
    using zs'(2) by simp_all
  have neI: "I \<noteq> []"
    using nonempty z zs'(2) by (cases I; cases L) simp_all
  then have neL: "L \<noteq> []"
    using zs'(2) by auto
  have "\<forall>a \<in> set I. np_shape a = [64, 64]"
  proof
    fix a assume "a \<in> set I"
    then have "a \<in> fst ` set (zip I L)" using I by (metis set_map)
    then show "np_shape a = [64, 64]"
      unfolding z using contract by (auto simp: resized_def)
  qed
  from np_stack_succeeds [OF neI this] have st: "np_stack I = Inr I" .
  show ?thesis
    unfolding create_tf_record_def filt Let_def
    by (simp add: zl st np_stack_scalars_def neL)
qed

lemma sorted_label_chunks:
  "sorted (concat (map (\<lambda>(k, l). replicate (n k l) k) (enumerate i labels)))"
proof (induction labels arbitrary: i)
  case Nil
  then show ?case by simp
next
  case (Cons l labels)
  have "\<forall>y \<in> set (concat (map (\<lambda>(k, l). replicate (n k l) k) (enumerate (Suc i) labels))). i \<le> y"
    by (auto simp: enumerate_eq_zip dest!: set_zip_leftD)
  with Cons.IH [of "Suc i"] show ?case
    by (auto simp: sorted_append)
qed

lemma sorted_archive_patches: "sorted (map snd (archive_patches labels z))"
proof -
  have "map snd (archive_patches labels z)
        = concat (map (\<lambda>(k, l). replicate (length (patch_files l (map fst z))) k)
                      (enumerate 0 labels))"
    unfolding archive_patches_def map_concat
    by (simp add: comp_def case_prod_unfold map_replicate_const)
  then show ?thesis
    by (simp add: sorted_label_chunks)
qed

lemma snd_archive_patches: "p \<in> set (archive_patches labels z) \<Longrightarrow> snd p < length labels"
  by (auto simp: archive_patches_def enumerate_eq_zip dest!: set_zip_leftD)

lemma startswith_Cons: "startswith f (p # ps) = (\<exists>cs. f = p # cs \<and> startswith cs ps)"
  by (cases f) auto

lemma startswith_appendD: "startswith f (a @ b) \<Longrightarrow> startswith f a"
  by (induction f a rule: startswith.induct) auto


lemma capitalize_LABELS: "\<forall>l \<in> set LABELS. capitalize l = l"
  by code_simp

lemma length_LABELS [simp]: "length LABELS = 5"
  by (simp add: LABELS_def)

lemma less_5_cases: "k < 5 \<Longrightarrow> k = 0 \<or> k = 1 \<or> k = 2 \<or> k = 3 \<or> k = (4::nat)"
  by arith

lemma LABELS_prefix_free:
  assumes "k < 5" "k' < 5" "startswith f (LABELS ! k)" "startswith f (LABELS ! k')"
  shows "k = k'"
  using less_5_cases [OF assms(1)] less_5_cases [OF assms(2)] assms(3,4)
  by (auto simp: LABELS_def startswith_Cons)

lemma sint_label: "k < 5 \<Longrightarrow> sint (of_nat k :: 64 word) = int k"
  using less_5_cases [of k] by auto

lemma np_shape_2D:
  assumes "np_shape rows = [n, m]"
  shows "length rows = n \<and> (\<forall>r \<in> set rows. length r = m)"
  using assms by (cases rows) (auto simp: np_shape_def list_all_iff split: if_splits)

text \<open>An entry under \<^verbatim>\<open><Label>/\<close> whose name ends in \<^verbatim>\<open>.tif\<close> is selected by that label and
  by no other.\<close>

lemma selected_by_label:
  assumes "f \<in> set files" "endswith f ''.tif''" "k < length LABELS"
          "startswith f (LABELS ! k @ ''/'')"
  shows "f \<in> set (patch_files (LABELS ! k) files)
       \<and> (\<forall>k' < length LABELS. f \<in> set (patch_files (LABELS ! k') files) \<longrightarrow> k' = k)"
proof
  have sw: "startswith f (LABELS ! k)"
    using assms(4) by (rule startswith_appendD)
  have "LABELS ! k \<in> set LABELS"
    using assms(3) by simp
  then have "capitalize (LABELS ! k) = LABELS ! k"
    using capitalize_LABELS by blast
  then show "f \<in> set (patch_files (LABELS ! k) files)"
    using assms(1,2) sw by (simp add: patch_files_def)
  show "\<forall>k' < length LABELS. f \<in> set (patch_files (LABELS ! k') files) \<longrightarrow> k' = k"
  proof (intro allI impI)
    fix k' assume k': "k' < length LABELS" "f \<in> set (patch_files (LABELS ! k') files)"
    have "LABELS ! k' \<in> set LABELS"
      using k'(1) by simp
    then have "capitalize (LABELS ! k') = LABELS ! k'"
      using capitalize_LABELS by blast
    with k'(2) have "startswith f (LABELS ! k')"
      by (simp add: patch_files_def)
    with sw assms(3) k'(1) show "k' = k"
      using LABELS_prefix_free [of k' k f] by simp
  qed
qed

text \<open>A selected entry of a selected archive is in the record, with the label that selected
  it.\<close>

lemma selected_entry_in_record:
  assumes "create_tf_record resize astype_uint8 root_dir filename labels = Inr rec"
      and "(zfn, ZipArchive z) \<in> set root_dir" "is_annotation_zip (zfn, ZipArchive z)"
      and "f \<in> set (patch_files (labels ! k) (map fst z))" "k < length labels"
  shows "encode astype_uint8 (resized resize (tiff_image z f, k))
           \<in> set (zip (record_images rec) (record_labels rec))"
proof -
  from create_tf_record_Inr [OF assms(1)] obtain zs where
    zs: "map snd (filter is_annotation_zip root_dir) = map ZipArchive zs" and
    z: "zip (record_images rec) (record_labels rec)
          = map (encode astype_uint8 \<circ> resized resize) (concat (map (archive_patches labels) zs))"
    by blast
  have "ZipArchive z \<in> set (map snd (filter is_annotation_zip root_dir))"
    using assms(2,3) by force
  then have zin: "z \<in> set zs"
    unfolding zs by auto
  have "(k, labels ! k) \<in> set (enumerate 0 labels)"
    using assms(5) by (simp add: in_set_enumerate_eq)
  with assms(4) have "(tiff_image z f, k) \<in> set (archive_patches labels z)"
    unfolding archive_patches_def by force
  with zin have "(tiff_image z f, k) \<in> set (concat (map (archive_patches labels) zs))"
    by auto
  then show ?thesis
    unfolding z by force
qed

text \<open>
  Claim C4. In a record written by \<open>create_tf_record\<close> with the five labels, every label is
  an int64 in \<open>[0, len(LABELS))\<close>. Every entry of an input archive whose name ends in
  \<^verbatim>\<open>.tif\<close> and lies under \<^verbatim>\<open><Label>/\<close> for the \<open>k\<close>-th label name is in the record, its
  image (resized and cast) paired with \<open>k\<close>, and no other label selects that entry.
\<close>

theorem create_tf_record_label_range:
  assumes "create_tf_record resize astype_uint8 root_dir filename LABELS = Inr rec"
  shows "(\<forall>l \<in> set (record_labels rec). 0 \<le> sint l \<and> sint l < int (length LABELS))
       \<and> (\<forall>zfn z f k.
            (zfn, ZipArchive z) \<in> set root_dir \<and> is_annotation_zip (zfn, ZipArchive z)
            \<and> f \<in> set (map fst z) \<and> endswith f ''.tif''
            \<and> k < length LABELS \<and> startswith f (LABELS ! k @ ''/'')
            \<longrightarrow> encode astype_uint8 (resized resize (tiff_image z f, k))
                   \<in> set (zip (record_images rec) (record_labels rec))
                \<and> (\<forall>k' < length LABELS.
                      f \<in> set (patch_files (LABELS ! k') (map fst z)) \<longrightarrow> k' = k))"
proof -
  from create_tf_record_Inr [OF assms] obtain zs where
    zs: "map snd (filter is_annotation_zip root_dir) = map ZipArchive zs" and
    len: "length (record_images rec) = length (record_labels rec)" and
    z: "zip (record_images rec) (record_labels rec)
          = map (encode astype_uint8 \<circ> resized resize) (concat (map (archive_patches LABELS) zs))"
    by blast
  have lbls: "record_labels rec = map snd (zip (record_images rec) (record_labels rec))"
    using len by simp
  have range: "0 \<le> sint l \<and> sint l < int (length LABELS)" if "l \<in> set (record_labels rec)" for l
  proof -
    from that lbls have "l \<in> snd ` set (zip (record_images rec) (record_labels rec))"
      by (metis set_map)
    then obtain p z' where p: "z' \<in> set zs" "p \<in> set (archive_patches LABELS z')"
      "l = of_nat (snd p)"
      unfolding z by (auto simp: encode_def resized_def)
    from snd_archive_patches [OF p(2)] have "snd p < 5" by simp
    then show ?thesis
      unfolding p(3) by (simp add: sint_label)
  qed
  have pair: "encode astype_uint8 (resized resize (tiff_image z f, k))
                   \<in> set (zip (record_images rec) (record_labels rec))
                \<and> (\<forall>k' < length LABELS.
                      f \<in> set (patch_files (LABELS ! k') (map fst z)) \<longrightarrow> k' = k)"
    if a: "(zfn, ZipArchive z) \<in> set root_dir" "is_annotation_zip (zfn, ZipArchive z)"
          "f \<in> set (map fst z)" "endswith f ''.tif''" "k < length LABELS"
          "startswith f (LABELS ! k @ ''/'')"
    for zfn z f k
  proof
    from selected_by_label [OF a(3-6)]
    have sel: "f \<in> set (patch_files (LABELS ! k) (map fst z))"
      and uniq: "\<forall>k' < length LABELS. f \<in> set (patch_files (LABELS ! k') (map fst z)) \<longrightarrow> k' = k"
      by blast+
    from selected_entry_in_record [OF assms a(1,2) sel a(5)]
    show "encode astype_uint8 (resized resize (tiff_image z f, k))
            \<in> set (zip (record_images rec) (record_labels rec))" .
    from uniq
    show "\<forall>k' < length LABELS. f \<in> set (patch_files (LABELS ! k') (map fst z)) \<longrightarrow> k' = k" .
  qed
  from range pair show ?thesis
    by blast
qed

text \<open>
  Claim C7. A successful run writes, under the given file name, one image per patch read from
  the archives: the patch passed to \<^verbatim>\<open>resize\<close> with output shape \<open>(64, 64)\<close> and
  \<^verbatim>\<open>preserve_range=True\<close>, each pixel cast to uint8 and wrapped in a trailing channel axis of
  length one; the labels are written as int64. When \<^verbatim>\<open>resize\<close> returns arrays of the shape it
  is asked for, every written image has shape \<open>(64, 64, 1)\<close>.
\<close>

theorem create_tf_record_resize_stack_cast:
  assumes "create_tf_record resize astype_uint8 root_dir filename labels = Inr rec"
  shows "record_filename rec = filename
       \<and> (\<exists>zs. map snd (filter is_annotation_zip root_dir) = map ZipArchive zs
             \<and> record_images rec
                 = map (\<lambda>p. map (map (\<lambda>v. [astype_uint8 v])) (resize (fst p) (64, 64) True))
                       (concat (map (archive_patches labels) zs))
             \<and> record_labels rec
                 = map (\<lambda>p. of_nat (snd p)) (concat (map (archive_patches labels) zs)))
       \<and> ((\<forall>img. np_shape (resize img (64, 64) True) = [64, 64]) \<longrightarrow>
            (\<forall>a \<in> set (record_images rec).
               length a = 64
               \<and> (\<forall>row \<in> set a. length row = 64 \<and> (\<forall>px \<in> set row. length px = 1))))"
proof -
  from create_tf_record_Inr [OF assms] obtain zs where
    zs: "map snd (filter is_annotation_zip root_dir) = map ZipArchive zs" and
    fn: "record_filename rec = filename" and
    len: "length (record_images rec) = length (record_labels rec)" and
    z: "zip (record_images rec) (record_labels rec)
          = map (encode astype_uint8 \<circ> resized resize) (concat (map (archive_patches labels) zs))"
    by blast
  have "record_images rec = map fst (zip (record_images rec) (record_labels rec))"
    using len by simp
  then have imgs: "record_images rec
      = map (\<lambda>p. map (map (\<lambda>v. [astype_uint8 v])) (resize (fst p) (64, 64) True))
            (concat (map (archive_patches labels) zs))"
    unfolding z by (simp add: encode_def resized_def comp_def)
  have "record_labels rec = map snd (zip (record_images rec) (record_labels rec))"
    using len by simp
  then have lbls: "record_labels rec
      = map (\<lambda>p. of_nat (snd p)) (concat (map (archive_patches labels) zs))"
    unfolding z by (simp add: encode_def resized_def comp_def)
  have shapes: "\<forall>a \<in> set (record_images rec).
               length a = 64
               \<and> (\<forall>row \<in> set a. length row = 64 \<and> (\<forall>px \<in> set row. length px = 1))"
    if contract: "\<forall>img. np_shape (resize img (64, 64) True) = [64, 64]"
  proof
    fix a assume "a \<in> set (record_images rec)"
    then obtain img where a: "a = map (map (\<lambda>v. [astype_uint8 v])) (resize img (64, 64) True)"
      unfolding imgs by auto
    from contract have "np_shape (resize img (64, 64) True) = [64, 64]" by blast
    from np_shape_2D [OF this] show "length a = 64
               \<and> (\<forall>row \<in> set a. length row = 64 \<and> (\<forall>px \<in> set row. length px = 1))"
      unfolding a by auto
  qed
  from fn zs imgs lbls shapes show ?thesis
    by blast
qed

text \<open>
  Claim C10. In a successful run the images and the labels have the same length, the
  \<open>i\<close>-th label belonging to the \<open>i\<close>-th image; the pairs are those of the first archive,
  then those of the second, and so on, and within one archive the labels are in increasing
  order. The run does succeed when every selected file is an archive, every selected entry
  decodes, there is at least one patch and \<^verbatim>\<open>resize\<close> returns arrays of the shape it is asked
  for.
\<close>

theorem create_tf_record_one_label_per_image_in_order:
  "(\<forall>rec. create_tf_record resize astype_uint8 root_dir filename labels = Inr rec \<longrightarrow>
      (\<exists>zs. map snd (filter is_annotation_zip root_dir) = map ZipArchive zs
         \<and> length (record_images rec) = length (record_labels rec)
         \<and> zip (record_images rec) (record_labels rec)
             = map (encode astype_uint8 \<circ> resized resize)
                   (concat (map (archive_patches labels) zs))
         \<and> (\<forall>z \<in> set zs. sorted (map snd (archive_patches labels z)))))
   \<and> (map snd (filter is_annotation_zip root_dir) = map ZipArchive zs
       \<and> (\<forall>z \<in> set zs. \<forall>l \<in> set labels. \<not> isl (read_images z (patch_files l (map fst z))))
       \<and> concat (map (archive_patches labels) zs) \<noteq> []
       \<and> (\<forall>img. np_shape (resize img (64, 64) True) = [64, 64])
       \<longrightarrow> (\<exists>rec. create_tf_record resize astype_uint8 root_dir filename labels = Inr rec))"
proof (intro conjI allI impI)
  fix rec
  assume "create_tf_record resize astype_uint8 root_dir filename labels = Inr rec"
  from create_tf_record_Inr [OF this] obtain zs' where
    "map snd (filter is_annotation_zip root_dir) = map ZipArchive zs'"
    "length (record_images rec) = length (record_labels rec)"
    "zip (record_images rec) (record_labels rec)
       = map (encode astype_uint8 \<circ> resized resize) (concat (map (archive_patches labels) zs'))"
    by blast
  then show "\<exists>zs. map snd (filter is_annotation_zip root_dir) = map ZipArchive zs
         \<and> length (record_images rec) = length (record_labels rec)
         \<and> zip (record_images rec) (record_labels rec)
             = map (encode astype_uint8 \<circ> resized resize)
                   (concat (map (archive_patches labels) zs))
         \<and> (\<forall>z \<in> set zs. sorted (map snd (archive_patches labels z)))"
    using sorted_archive_patches by blast
next
  assume "map snd (filter is_annotation_zip root_dir) = map ZipArchive zs
       \<and> (\<forall>z \<in> set zs. \<forall>l \<in> set labels. \<not> isl (read_images z (patch_files l (map fst z))))
       \<and> concat (map (archive_patches labels) zs) \<noteq> []
       \<and> (\<forall>img. np_shape (resize img (64, 64) True) = [64, 64])"
  then show "\<exists>rec. create_tf_record resize astype_uint8 root_dir filename labels = Inr rec"
    using create_tf_record_succeeds by blast
qed

lemma resize_nearest_shape: "np_shape (resize_nearest img (64, 64) True) = [64, 64]"
proof -
  have "np_shape (resize_nearest img (64, 64) True)
        = [length (resize_nearest img (64, 64) True), 64]"
    by (rule np_shape_rect) (auto simp: resize_nearest_def)
  then show ?thesis
    by (simp add: resize_nearest_def)
qed

lemma demo_zipfiles: "map snd (filter is_annotation_zip demo_root) = map ZipArchive [demo_zip]"
  by code_simp

lemma demo_decodes:
  "\<forall>z \<in> set [demo_zip]. \<forall>l \<in> set LABELS. \<not> isl (read_images z (patch_files l (map fst z)))"
  by code_simp

lemma demo_patches:
  "archive_patches LABELS demo_zip = [([[12, 13], [22, 23]], 0), ([[21, 22], [31, 32]], 2)]"
  by code_simp

lemma demo_succeeds:
  "\<exists>rec. create_tf_record resize_nearest astype_uint8_trunc demo_root
            ''CNN_train.tfrecord'' LABELS = Inr rec"
  by (rule create_tf_record_succeeds [OF demo_zipfiles demo_decodes])
     (simp_all add: demo_patches resize_nearest_shape)

lemma demo_entry:
  "(''annotation_t.zip'', ZipArchive demo_zip) \<in> set demo_root
   \<and> is_annotation_zip (''annotation_t.zip'', ZipArchive demo_zip)
   \<and> ''Interphase/Interphase_t_1.tif'' \<in> set (map fst demo_zip)
   \<and> endswith ''Interphase/Interphase_t_1.tif'' ''.tif''
   \<and> 0 < length LABELS
   \<and> startswith ''Interphase/Interphase_t_1.tif'' (LABELS ! 0 @ ''/'')"
  by code_simp

lemma demo_tiff_image: "tiff_image demo_zip ''Interphase/Interphase_t_1.tif'' = [[12, 13], [22, 23]]"
  by code_simp

theorem create_tf_record_label_range_witness:
  "\<exists>rec. create_tf_record resize_nearest astype_uint8_trunc demo_root
            ''CNN_train.tfrecord'' LABELS = Inr rec
     \<and> (\<forall>l \<in> set (record_labels rec). 0 \<le> sint l \<and> sint l < int (length LABELS))
     \<and> encode astype_uint8_trunc (resized resize_nearest ([[12, 13], [22, 23]], 0))
          \<in> set (zip (record_images rec) (record_labels rec))"
proof -
  from demo_succeeds obtain rec where
    r: "create_tf_record resize_nearest astype_uint8_trunc demo_root
          ''CNN_train.tfrecord'' LABELS = Inr rec" ..
  note t = create_tf_record_label_range [OF r]
  from t have 1: "\<forall>l \<in> set (record_labels rec). 0 \<le> sint l \<and> sint l < int (length LABELS)"
    by (rule conjunct1)
  from t demo_entry
  have "encode astype_uint8_trunc
          (resized resize_nearest (tiff_image demo_zip ''Interphase/Interphase_t_1.tif'', 0))
          \<in> set (zip (record_images rec) (record_labels rec))"
    by blast
  then have 2: "encode astype_uint8_trunc (resized resize_nearest ([[12, 13], [22, 23]], 0))
          \<in> set (zip (record_images rec) (record_labels rec))"
    by (simp only: demo_tiff_image)
  from r 1 2 show ?thesis by blast
qed

theorem create_tf_record_resize_stack_cast_witness:
  "\<exists>rec. create_tf_record resize_nearest astype_uint8_trunc demo_root
            ''CNN_train.tfrecord'' LABELS = Inr rec
     \<and> record_filename rec = ''CNN_train.tfrecord''
     \<and> record_images rec
         = map (\<lambda>p. map (map (\<lambda>v. [astype_uint8_trunc v])) (resize_nearest (fst p) (64, 64) True))
               [([[12, 13], [22, 23]], 0), ([[21, 22], [31, 32]], 2)]
     \<and> record_labels rec = [0, 2]
     \<and> (\<forall>a \<in> set (record_images rec).
           length a = 64
           \<and> (\<forall>row \<in> set a. length row = 64 \<and> (\<forall>px \<in> set row. length px = 1)))"
proof -
  from demo_succeeds obtain rec where
    r: "create_tf_record resize_nearest astype_uint8_trunc demo_root
          ''CNN_train.tfrecord'' LABELS = Inr rec" ..
  from create_tf_record_resize_stack_cast [OF r] obtain zs where
    fn: "record_filename rec = ''CNN_train.tfrecord''" and
    zs: "map snd (filter is_annotation_zip demo_root) = map ZipArchive zs" and
    imgs: "record_images rec
             = map (\<lambda>p. map (map (\<lambda>v. [astype_uint8_trunc v])) (resize_nearest (fst p) (64, 64) True))
                   (concat (map (archive_patches LABELS) zs))" and
    lbls: "record_labels rec = map (\<lambda>p. of_nat (snd p)) (concat (map (archive_patches LABELS) zs))" and
    sh: "(\<forall>img. np_shape (resize_nearest img (64, 64) True) = [64, 64]) \<longrightarrow>
            (\<forall>a \<in> set (record_images rec).
               length a = 64
               \<and> (\<forall>row \<in> set a. length row = 64 \<and> (\<forall>px \<in> set row. length px = 1)))"
    by blast
  from zs have "zs = [demo_zip]"
    unfolding demo_zipfiles by auto
  then have p: "concat (map (archive_patches LABELS) zs) = [([[12, 13], [22, 23]], 0), ([[21, 22], [31, 32]], 2)]"
    by (simp add: demo_patches)
  from sh resize_nearest_shape
  have "\<forall>a \<in> set (record_images rec).
               length a = 64
               \<and> (\<forall>row \<in> set a. length row = 64 \<and> (\<forall>px \<in> set row. length px = 1))"
    by blast
  with r fn imgs lbls show ?thesis
    unfolding p by (intro exI [of _ rec]) simp
qed

theorem create_tf_record_one_label_per_image_in_order_witness:
  "\<exists>rec. create_tf_record resize_nearest astype_uint8_trunc demo_root
            ''CNN_train.tfrecord'' LABELS = Inr rec
     \<and> length (record_images rec) = length (record_labels rec)
     \<and> zip (record_images rec) (record_labels rec)
         = map (encode astype_uint8_trunc \<circ> resized resize_nearest)
               [([[12, 13], [22, 23]], 0), ([[21, 22], [31, 32]], 2)]"
proof -
  note t = create_tf_record_one_label_per_image_in_order
             [of resize_nearest astype_uint8_trunc demo_root "''CNN_train.tfrecord''" LABELS
                 "[demo_zip]"]
  have pre: "map snd (filter is_annotation_zip demo_root) = map ZipArchive [demo_zip]
       \<and> (\<forall>z \<in> set [demo_zip]. \<forall>l \<in> set LABELS.
             \<not> isl (read_images z (patch_files l (map fst z))))
       \<and> concat (map (archive_patches LABELS) [demo_zip]) \<noteq> []
       \<and> (\<forall>img. np_shape (resize_nearest img (64, 64) True) = [64, 64])"
    using demo_zipfiles demo_decodes by (simp add: demo_patches resize_nearest_shape)
  from t pre obtain rec where
    r: "create_tf_record resize_nearest astype_uint8_trunc demo_root
          ''CNN_train.tfrecord'' LABELS = Inr rec"
    by blast
  from t r obtain zs where
    zs: "map snd (filter is_annotation_zip demo_root) = map ZipArchive zs" and
    len: "length (record_images rec) = length (record_labels rec)" and
    z: "zip (record_images rec) (record_labels rec)
         = map (encode astype_uint8_trunc \<circ> resized resize_nearest)
               (concat (map (archive_patches LABELS) zs))"
    by blast
  from zs have "zs = [demo_zip]"
    unfolding demo_zipfiles by auto
  then have p: "concat (map (archive_patches LABELS) zs) = [([[12, 13], [22, 23]], 0), ([[21, 22], [31, 32]], 2)]"
    by (simp add: demo_patches)
  from r len z show ?thesis
    unfolding p by blast
qed

section \<open>The export\<close>

lemma str_nat_nonempty: "str_nat n \<noteq> []"
  by (subst str_nat.simps) simp

lemma digit_char_inj:
  assumes "a < 10" "b < 10" "(char_of (48 + a) :: char) = char_of (48 + b)"
  shows "a = (b::nat)"
proof -
  from assms(3) have "(of_char (char_of (48 + a) :: char) :: nat) = of_char (char_of (48 + b) :: char)"
    by simp
  then have "(48 + a) mod 256 = (48 + b) mod 256"
    by (simp only: of_char_of)
  with assms(1,2) show ?thesis
    by simp
qed

lemma str_nat_inj: "str_nat n = str_nat m \<Longrightarrow> n = m"
proof (induction n arbitrary: m rule: str_nat.induct)
  case (1 n)
  show ?case
  proof (cases "n < 10")
    case n: True
    show ?thesis
    proof (cases "m < 10")
      case True
      with n "1.prems" show ?thesis
        by (subst (asm) (1 2) str_nat.simps) (simp add: digit_char_inj)
    next
      case False
      with n "1.prems" str_nat_nonempty [of "m div 10"] show ?thesis
        by (subst (asm) (1 2) str_nat.simps) simp
    qed
  next
    case n: False
    show ?thesis
    proof (cases "m < 10")
      case True
      with n "1.prems" str_nat_nonempty [of "n div 10"] show ?thesis
        by (subst (asm) (1 2) str_nat.simps) simp
    next
      case False
      with n "1.prems" have eq: "str_nat (n div 10) = str_nat (m div 10)"
        "(char_of (48 + n mod 10) :: char) = char_of (48 + m mod 10)"
        by (subst (asm) (1 2) str_nat.simps, simp)+
      from "1.IH" [OF n eq(1)] have "n div 10 = m div 10" .
      moreover from eq(2) have "n mod 10 = m mod 10"
        by (intro digit_char_inj) simp_all
      ultimately show ?thesis
        by (metis div_mult_mod_eq)
    qed
  qed
qed

lemma dict_set_keys: "fst ` set (dict_set d k v) = insert k (fst ` set d)"
proof (induction d)
  case Nil
  then show ?case by simp
next
  case (Cons a d)
  obtain k' v' where a: "a = (k', v')" by (cases a)
  show ?case
  proof (cases "k' = k")
    case True
    with a show ?thesis by simp
  next
    case False
    with a Cons.IH show ?thesis by (simp add: insert_commute)
  qed
qed

lemma dict_set_distinct: "distinct (map fst d) \<Longrightarrow> distinct (map fst (dict_set d k v))"
proof (induction d)
  case Nil
  then show ?case by simp
next
  case (Cons a d)
  obtain k' v' where a: "a = (k', v')" by (cases a)
  show ?case
  proof (cases "k' = k")
    case True
    with Cons.prems a show ?thesis by simp
  next
    case False
    have "k' \<notin> fst ` set (dict_set d k v)"
      using Cons.prems a False by (simp add: dict_set_keys)
    with Cons a False show ?thesis by simp
  qed
qed

lemma map_of_dict_set: "map_of (dict_set d k v) = (map_of d)(k \<mapsto> v)"
  by (induction d) (auto simp: fun_upd_twist)

lemma fold_dict_keys:
  "fst ` set (fold (\<lambda>x d. dict_set d (key x) (val x)) xs d) = fst ` set d \<union> key ` set xs"
proof (induction xs arbitrary: d)
  case Nil
  then show ?case by simp
next
  case (Cons a xs)
  have "fst ` set (fold (\<lambda>x d. dict_set d (key x) (val x)) (a # xs) d)
        = fst ` set (dict_set d (key a) (val a)) \<union> key ` set xs"
    using Cons.IH [of "dict_set d (key a) (val a)"] by simp
  also have "\<dots> = fst ` set d \<union> key ` set (a # xs)"
    by (simp add: dict_set_keys)
  finally show ?case .
qed

lemma fold_dict_distinct:
  "distinct (map fst d) \<Longrightarrow> distinct (map fst (fold (\<lambda>x d. dict_set d (key x) (val x)) xs d))"
  by (induction xs arbitrary: d) (auto simp: dict_set_distinct)

lemma fold_dict_other:
  "k \<notin> key ` set xs \<Longrightarrow> map_of (fold (\<lambda>x d. dict_set d (key x) (val x)) xs d) k = map_of d k"
  by (induction xs arbitrary: d) (auto simp: map_of_dict_set)

lemma fold_dict_lookup:
  "distinct (map key xs) \<Longrightarrow> x \<in> set xs
   \<Longrightarrow> map_of (fold (\<lambda>x d. dict_set d (key x) (val x)) xs d) (key x) = Some (val x)"
proof (induction xs arbitrary: d)
  case Nil
  then show ?case by simp
next
  case (Cons a xs)
  show ?case
  proof (cases "x = a")
    case True
    then have "key x \<notin> key ` set xs"
      using Cons.prems(1) by auto
    then show ?thesis
      using True by (simp add: fold_dict_other map_of_dict_set)
  next
    case False
    then show ?thesis
      using Cons by simp
  qed
qed

lemma fold_conditional:
  "fold (\<lambda>x d. if P x then f x d else d) xs d = fold f (filter P xs) d"
  by (induction xs arbitrary: d) simp_all

lemma py_index_nat:
  "py_index xs (int i) = (if i < length xs then Inr (xs ! i) else Inl IndexError)"
  by (simp add: py_index_def)

lemma write_patches_None:
  assumes "write_patches ils t states shape idx pts myzip = (z, None)"
  shows "\<exists>patches. length patches = length pts
           \<and> (\<forall>i < length pts. idx + i < length states
                  \<and> get_image_patch ils (pts ! i) shape = Inr (patches ! i))
           \<and> z = myzip @ map (\<lambda>i. (patch_filename (states ! (idx + i)) t (idx + i),
                                     Tiff (patches ! i))) [0..<length pts]"
  using assms
proof (induction pts arbitrary: idx myzip)
  case Nil
  then show ?case by simp
next
  case (Cons c pts)
  from Cons.prems obtain patch where
    i: "idx < length states" and
    g: "get_image_patch ils c shape = Inr patch" and
    rest: "write_patches ils t states shape (Suc idx) pts
             (myzip @ [(patch_filename (states ! idx) t idx, Tiff patch)]) = (z, None)"
    by (auto simp: py_index_nat split: if_splits sum.splits)
  from Cons.IH [OF rest] obtain patches where
    p: "length patches = length pts"
       "\<forall>i < length pts. Suc idx + i < length states
                  \<and> get_image_patch ils (pts ! i) shape = Inr (patches ! i)"
       "z = (myzip @ [(patch_filename (states ! idx) t idx, Tiff patch)])
            @ map (\<lambda>i. (patch_filename (states ! (Suc idx + i)) t (Suc idx + i),
                         Tiff (patches ! i))) [0..<length pts]"
    by blast
  have 1: "length (patch # patches) = length (c # pts)"
    using p(1) by simp
  have 2: "\<forall>i < length (c # pts). idx + i < length states
             \<and> get_image_patch ils ((c # pts) ! i) shape = Inr ((patch # patches) ! i)"
  proof (intro allI impI)
    fix i assume "i < length (c # pts)"
    then show "idx + i < length states
             \<and> get_image_patch ils ((c # pts) ! i) shape = Inr ((patch # patches) ! i)"
      using i g p(2) by (cases i) auto
  qed
  have "map (\<lambda>i. (patch_filename (states ! (idx + i)) t (idx + i), Tiff ((patch # patches) ! i)))
            [0..<length (c # pts)]
        = (patch_filename (states ! idx) t idx, Tiff patch)
          # map (\<lambda>i. (patch_filename (states ! (Suc idx + i)) t (Suc idx + i), Tiff (patches ! i)))
                [0..<length pts]"
    by (simp add: upt_conv_Cons map_Suc_upt [symmetric] del: upt_Suc)
  with p(3) have 3: "z = myzip @ map (\<lambda>i. (patch_filename (states ! (idx + i)) t (idx + i),
                                     Tiff ((patch # patches) ! i))) [0..<length (c # pts)]"
    by simp
  from 1 2 3 show ?case by blast
qed

text \<open>An exception leaves only TIFF entries behind.\<close>

lemma write_patches_Some:
  assumes "write_patches ils t states shape idx pts myzip = (z, Some e)"
  shows "\<exists>written. z = myzip @ written \<and> length written < length pts
           \<and> (\<forall>entry \<in> set written. \<exists>img. snd entry = Tiff img)
           \<and> (idx + length written < length states
                \<longrightarrow> get_image_patch ils (pts ! length written) shape = Inl e)"
  using assms
proof (induction pts arbitrary: idx myzip)
  case Nil
  then show ?case by simp
next
  case (Cons c pts)
  show ?case
  proof (cases "idx < length states")
    case False
    with Cons.prems have "z = myzip"
      by (simp add: py_index_nat)
    with False show ?thesis
      by (intro exI [of _ "[]"]) simp
  next
    case i: True
    show ?thesis
    proof (cases "get_image_patch ils c shape")
      case (Inl e')
      with i Cons.prems have "z = myzip" "e' = e"
        by (simp_all add: py_index_nat)
      with Inl show ?thesis
        by (intro exI [of _ "[]"]) simp
    next
      case (Inr patch)
      with i Cons.prems have
        rest: "write_patches ils t states shape (Suc idx) pts
                 (myzip @ [(patch_filename (states ! idx) t idx, Tiff patch)]) = (z, Some e)"
        by (simp add: py_index_nat)
      from Cons.IH [OF rest] obtain written where
        w: "z = (myzip @ [(patch_filename (states ! idx) t idx, Tiff patch)]) @ written"
           "length written < length pts"
           "\<forall>entry \<in> set written. \<exists>img. snd entry = Tiff img"
           "Suc idx + length written < length states
                \<longrightarrow> get_image_patch ils (pts ! length written) shape = Inl e"
        by blast
      then show ?thesis
        by (intro exI [of _ "(patch_filename (states ! idx) t idx, Tiff patch) # written"]) auto
    qed
  qed
qed

lemma coords_key_inj: "inj (\<lambda>d. ''coords-'' @ str_nat d)"
  by (auto simp: inj_on_def dest: str_nat_inj)

lemma export_data_of_keys:
  fixes ils :: "'a image_layer list"
  defines "vis \<equiv> \<lambda>flag. filter (\<lambda>l. flag \<and> visible l) ils"
  shows "distinct (map fst (export_data_of ils pts shape flag))"
    and "fst ` set (export_data_of ils pts shape flag)
         = {''shape'', ''labels''} \<union> layer_name ` set (vis flag)
           \<union> (\<lambda>d. ''coords-'' @ str_nat d) ` {..<points_ndim pts}"
    and "map_of (export_data_of ils pts shape flag) ''labels'' = Some (JStrings (properties_State pts))"
    and "d < points_ndim pts \<Longrightarrow>
         map_of (export_data_of ils pts shape flag) (''coords-'' @ str_nat d)
           = Some (JNumbers (map (\<lambda>p. p ! d) (points_data pts)))"
    and "distinct (map layer_name (vis flag)) \<Longrightarrow> l \<in> set (vis flag)
         \<Longrightarrow> layer_name l \<notin> {''shape'', ''labels''} \<union> (\<lambda>d. ''coords-'' @ str_nat d) ` {..<points_ndim pts}
         \<Longrightarrow> map_of (export_data_of ils pts shape flag) (layer_name l) = Some (JObject (metadata l))"
    and "''shape'' \<notin> layer_name ` set (vis flag)
         \<Longrightarrow> map_of (export_data_of ils pts shape flag) ''shape'' = Some (JInt shape)"
proof -
  let ?d0 = "[(''shape'', JInt shape)]"
  let ?d1 = "fold (\<lambda>l d. dict_set d (layer_name l) (JObject (metadata l))) (vis flag) ?d0"
  let ?ckey = "\<lambda>d. ''coords-'' @ str_nat d"
  let ?cval = "\<lambda>d. JNumbers (map (\<lambda>p. p ! d) (points_data pts))"
  let ?d2 = "fold (\<lambda>i d. dict_set d (?ckey i) (?cval i)) [0..<points_ndim pts] ?d1"
  have ed: "export_data_of ils pts shape flag = dict_set ?d2 ''labels'' (JStrings (properties_State pts))"
    unfolding export_data_of_def Let_def vis_def
    by (simp only: fold_conditional [symmetric])
  have dist_c: "distinct (map ?ckey [0..<points_ndim pts])"
    using coords_key_inj by (simp add: distinct_map inj_on_def)
  have step: "map_of ?d2 k = map_of ?d1 k" if "k \<notin> ?ckey ` set [0..<points_ndim pts]" for k
    using that by (rule fold_dict_other)
  show "distinct (map fst (export_data_of ils pts shape flag))"
    unfolding ed by (intro dict_set_distinct fold_dict_distinct) simp
  show "fst ` set (export_data_of ils pts shape flag)
         = {''shape'', ''labels''} \<union> layer_name ` set (vis flag)
           \<union> (\<lambda>d. ''coords-'' @ str_nat d) ` {..<points_ndim pts}"
    unfolding ed by (auto simp: dict_set_keys fold_dict_keys)
  show "map_of (export_data_of ils pts shape flag) ''labels'' = Some (JStrings (properties_State pts))"
    unfolding ed by (simp add: map_of_dict_set)
  show "map_of (export_data_of ils pts shape flag) (''coords-'' @ str_nat d)
           = Some (JNumbers (map (\<lambda>p. p ! d) (points_data pts)))" if "d < points_ndim pts"
  proof -
    have "map_of ?d2 (?ckey d) = Some (?cval d)"
      using dist_c that by (intro fold_dict_lookup) simp_all
    then show ?thesis
      unfolding ed by (simp add: map_of_dict_set)
  qed
  show "map_of (export_data_of ils pts shape flag) (layer_name l) = Some (JObject (metadata l))"
    if "distinct (map layer_name (vis flag))" "l \<in> set (vis flag)"
       "layer_name l \<notin> {''shape'', ''labels''} \<union> (\<lambda>d. ''coords-'' @ str_nat d) ` {..<points_ndim pts}"
  proof -
    have "map_of ?d1 (layer_name l) = Some (JObject (metadata l))"
      using that(1,2) by (rule fold_dict_lookup)
    moreover have "layer_name l \<notin> ?ckey ` set [0..<points_ndim pts]"
      using that(3) by auto
    ultimately have "map_of ?d2 (layer_name l) = Some (JObject (metadata l))"
      using step [of "layer_name l"] by simp
    moreover have "layer_name l \<noteq> ''labels''"
      using that(3) by auto
    ultimately show ?thesis
      unfolding ed by (simp add: map_of_dict_set)
  qed
  show "map_of (export_data_of ils pts shape flag) ''shape'' = Some (JInt shape)"
    if "''shape'' \<notin> layer_name ` set (vis flag)"
  proof -
    have "map_of ?d1 ''shape'' = Some (JInt shape)"
      using that by (simp add: fold_dict_other)
    moreover have "''shape'' \<notin> ?ckey ` set [0..<points_ndim pts]"
      by auto
    ultimately have "map_of ?d2 ''shape'' = Some (JInt shape)"
      using step [of "''shape''"] by simp
    then show ?thesis
      unfolding ed by (simp add: map_of_dict_set)
  qed
qed

lemma widget_cases:
  "cnn_annotation_widget t layers pts shape flag
   = (case write_patches (image_layers_of layers) t (properties_State pts) shape 0
             (points_data pts) [] of
        (myzip, Some e) \<Rightarrow> ((''annotation_'' @ t @ ''.zip'', myzip), Some e)
      | (myzip, None) \<Rightarrow>
          ((''annotation_'' @ t @ ''.zip'',
            myzip @ [(''annotation_'' @ t @ ''.json'',
                      Text (export_data_of (image_layers_of layers) pts shape flag))]), None))"
  by (simp only: cnn_annotation_widget_def Let_def append_assoc)

lemma cnn_annotation_widget_None:
  assumes "snd (cnn_annotation_widget t layers pts shape flag) = None"
  shows "\<exists>patches. length patches = length (points_data pts)
           \<and> (\<forall>i < length (points_data pts). i < length (properties_State pts)
                  \<and> get_image_patch (image_layers_of layers) (points_data pts ! i) shape
                      = Inr (patches ! i))
           \<and> fst (cnn_annotation_widget t layers pts shape flag)
               = (''annotation_'' @ t @ ''.zip'',
                  map (\<lambda>i. (patch_filename (properties_State pts ! i) t i, Tiff (patches ! i)))
                      [0..<length (points_data pts)]
                  @ [(''annotation_'' @ t @ ''.json'',
                      Text (export_data_of (image_layers_of layers) pts shape flag))])"
proof -
  obtain z r where w: "write_patches (image_layers_of layers) t (properties_State pts) shape 0
             (points_data pts) [] = (z, r)"
    by (cases "write_patches (image_layers_of layers) t (properties_State pts) shape 0
             (points_data pts) []")
  with assms have r: "r = None"
    by (cases r) (simp_all add: widget_cases)
  from write_patches_None [OF w [unfolded r]] obtain patches where
    p: "length patches = length (points_data pts)"
       "\<forall>i < length (points_data pts). 0 + i < length (properties_State pts)
            \<and> get_image_patch (image_layers_of layers) (points_data pts ! i) shape
                = Inr (patches ! i)"
       "z = [] @ map (\<lambda>i. (patch_filename (properties_State pts ! (0 + i)) t (0 + i),
                           Tiff (patches ! i))) [0..<length (points_data pts)]"
    by blast
  have "fst (cnn_annotation_widget t layers pts shape flag)
        = (''annotation_'' @ t @ ''.zip'',
           z @ [(''annotation_'' @ t @ ''.json'',
                 Text (export_data_of (image_layers_of layers) pts shape flag))])"
    by (simp add: widget_cases w r)
  with p show ?thesis
    by (intro exI [of _ patches]) simp
qed

text \<open>When the export ends with an exception, the archive holds fewer entries than there are
  points, all of them patches: the JSON log is not in it.\<close>

lemma cnn_annotation_widget_aborts:
  assumes "snd (cnn_annotation_widget t layers pts shape flag) = Some e"
  shows "\<exists>written. fst (cnn_annotation_widget t layers pts shape flag)
                     = (''annotation_'' @ t @ ''.zip'', written)
           \<and> length written < length (points_data pts)
           \<and> (\<forall>entry \<in> set written. \<exists>img. snd entry = Tiff img)"
proof -
  obtain z r where w: "write_patches (image_layers_of layers) t (properties_State pts) shape 0
             (points_data pts) [] = (z, r)"
    by (cases "write_patches (image_layers_of layers) t (properties_State pts) shape 0
             (points_data pts) []")
  with assms have r: "r = Some e"
    by (cases r) (simp_all add: widget_cases)
  from write_patches_Some [OF w [unfolded r]] obtain written where
    "z = [] @ written" "length written < length (points_data pts)"
    "\<forall>entry \<in> set written. \<exists>img. snd entry = Tiff img"
    by blast
  then show ?thesis
    by (intro exI [of _ written]) (simp add: widget_cases w r)
qed

text \<open>A point whose crop raises makes the export end with an exception.\<close>

lemma cnn_annotation_widget_raises:
  assumes "i < length (points_data pts)"
      and "get_image_patch (image_layers_of layers) (points_data pts ! i) shape = Inl e"
  shows "snd (cnn_annotation_widget t layers pts shape flag) \<noteq> None"
proof
  assume "snd (cnn_annotation_widget t layers pts shape flag) = None"
  from cnn_annotation_widget_None [OF this] assms show False
    by auto
qed

text \<open>
  Claim C6, amended. A successful export of \<open>n\<close> points leaves the archive
  \<^verbatim>\<open>annotation_<timestamp>.zip\<close> with \<open>n\<close> TIFF entries followed by one JSON entry. The
  \<open>i\<close>-th TIFF entry is named \<^verbatim>\<open><Label>/<Label>_<timestamp>_<i>.tif\<close> after the label of the
  \<open>i\<close>-th point and holds its patch. The JSON entry \<^verbatim>\<open>annotation_<timestamp>.json\<close> is a
  dictionary whose keys are \<^verbatim>\<open>shape\<close>, \<^verbatim>\<open>labels\<close>, one \<^verbatim>\<open>coords-<d>\<close> per coordinate axis and,
  only when \<^verbatim>\<open>use_visible_layers\<close> is set, the names of the visible image layers;
  \<^verbatim>\<open>labels\<close> holds the label names in point order and \<^verbatim>\<open>coords-<d>\<close> the \<open>d\<close>-th coordinate of
  every point. When the names of those layers are distinct and none of them is one of the
  other keys, \<^verbatim>\<open>shape\<close> holds the patch size and each layer name the metadata of its layer.
\<close>

theorem cnn_annotation_widget_export_format:
  assumes "snd (cnn_annotation_widget t layers pts shape flag) = None"
  shows "\<exists>patches ed.
      length patches = length (points_data pts)
    \<and> (\<forall>i < length (points_data pts). i < length (properties_State pts)
          \<and> get_image_patch (image_layers_of layers) (points_data pts ! i) shape = Inr (patches ! i))
    \<and> fst (cnn_annotation_widget t layers pts shape flag)
        = (''annotation_'' @ t @ ''.zip'',
           map (\<lambda>i. (properties_State pts ! i @ ''/'' @ properties_State pts ! i @ ''_'' @ t
                       @ ''_'' @ str_nat i @ ''.tif'', Tiff (patches ! i)))
               [0..<length (points_data pts)]
           @ [(''annotation_'' @ t @ ''.json'', Text ed)])
    \<and> distinct (map fst ed)
    \<and> fst ` set ed
        = {''shape'', ''labels''}
          \<union> layer_name ` set (filter (\<lambda>l. flag \<and> visible l) (image_layers_of layers))
          \<union> (\<lambda>d. ''coords-'' @ str_nat d) ` {..<points_ndim pts}
    \<and> map_of ed ''labels'' = Some (JStrings (properties_State pts))
    \<and> (\<forall>d < points_ndim pts.
          map_of ed (''coords-'' @ str_nat d) = Some (JNumbers (map (\<lambda>p. p ! d) (points_data pts))))
    \<and> (distinct (map layer_name (filter (\<lambda>l. flag \<and> visible l) (image_layers_of layers)))
        \<and> (\<forall>l \<in> set (filter (\<lambda>l. flag \<and> visible l) (image_layers_of layers)).
              layer_name l \<notin> {''shape'', ''labels''}
                               \<union> (\<lambda>d. ''coords-'' @ str_nat d) ` {..<points_ndim pts})
        \<longrightarrow> map_of ed ''shape'' = Some (JInt shape)
            \<and> (\<forall>l \<in> set (filter (\<lambda>l. flag \<and> visible l) (image_layers_of layers)).
                  map_of ed (layer_name l) = Some (JObject (metadata l))))"
proof -
  let ?ils = "image_layers_of layers"
  let ?ed = "export_data_of ?ils pts shape flag"
  from cnn_annotation_widget_None [OF assms] obtain patches where
    p: "length patches = length (points_data pts)"
       "\<forall>i < length (points_data pts). i < length (properties_State pts)
          \<and> get_image_patch ?ils (points_data pts ! i) shape = Inr (patches ! i)"
       "fst (cnn_annotation_widget t layers pts shape flag)
        = (''annotation_'' @ t @ ''.zip'',
           map (\<lambda>i. (patch_filename (properties_State pts ! i) t i, Tiff (patches ! i)))
               [0..<length (points_data pts)]
           @ [(''annotation_'' @ t @ ''.json'', Text ?ed)])"
    by blast
  note k = export_data_of_keys [where ils = ?ils and pts = pts and shape = shape and flag = flag]
  have vals: "map_of ?ed ''shape'' = Some (JInt shape)
            \<and> (\<forall>l \<in> set (filter (\<lambda>l. flag \<and> visible l) ?ils).
                  map_of ?ed (layer_name l) = Some (JObject (metadata l)))"
    if d: "distinct (map layer_name (filter (\<lambda>l. flag \<and> visible l) ?ils))"
    and r: "\<forall>l \<in> set (filter (\<lambda>l. flag \<and> visible l) ?ils).
              layer_name l \<notin> {''shape'', ''labels''}
                               \<union> (\<lambda>d. ''coords-'' @ str_nat d) ` {..<points_ndim pts}"
  proof
    have "''shape'' \<notin> layer_name ` set (filter (\<lambda>l. flag \<and> visible l) ?ils)"
      using r by auto
    then show "map_of ?ed ''shape'' = Some (JInt shape)"
      by (rule k(6))
    show "\<forall>l \<in> set (filter (\<lambda>l. flag \<and> visible l) ?ils).
            map_of ?ed (layer_name l) = Some (JObject (metadata l))"
    proof
      fix l assume l: "l \<in> set (filter (\<lambda>l. flag \<and> visible l) ?ils)"
      with r have "layer_name l \<notin> {''shape'', ''labels''}
                               \<union> (\<lambda>d. ''coords-'' @ str_nat d) ` {..<points_ndim pts}"
        by blast
      with d l show "map_of ?ed (layer_name l) = Some (JObject (metadata l))"
        by (rule k(5))
    qed
  qed
  have coords: "\<forall>d < points_ndim pts.
          map_of ?ed (''coords-'' @ str_nat d) = Some (JNumbers (map (\<lambda>p. p ! d) (points_data pts)))"
    using k(4) by blast
  from p(3) have f: "fst (cnn_annotation_widget t layers pts shape flag)
        = (''annotation_'' @ t @ ''.zip'',
           map (\<lambda>i. (properties_State pts ! i @ ''/'' @ properties_State pts ! i @ ''_'' @ t
                       @ ''_'' @ str_nat i @ ''.tif'', Tiff (patches ! i)))
               [0..<length (points_data pts)]
           @ [(''annotation_'' @ t @ ''.json'', Text ?ed)])"
    by (simp add: patch_filename_def)
  from p(1,2) f k(1,2,3) coords vals show ?thesis
    by (intro exI [of _ patches] exI [of _ ?ed] conjI impI) blast+
qed

lemma demo_export_succeeds:
  "snd (cnn_annotation_widget ''t'' [Image demo_layer, Points demo_points] demo_points 2 True)
   = None"
  by code_simp


theorem cnn_annotation_widget_export_format_witness:
  "\<exists>patches ed.
      length patches = 2
    \<and> fst (cnn_annotation_widget ''t'' [Image demo_layer, Points demo_points] demo_points 2 True)
        = (''annotation_'' @ ''t'' @ ''.zip'',
           map (\<lambda>i. (properties_State demo_points ! i @ ''/'' @ properties_State demo_points ! i
                       @ ''_'' @ ''t'' @ ''_'' @ str_nat i @ ''.tif'', Tiff (patches ! i)))
               [0..<2]
           @ [(''annotation_'' @ ''t'' @ ''.json'', Text ed)])
    \<and> map_of ed ''labels'' = Some (JStrings [''Metaphase'', ''Interphase''])"
proof -
  have n: "length (points_data demo_points) = 2"
    and s: "properties_State demo_points = [''Metaphase'', ''Interphase'']"
    by (simp_all add: demo_points_def)
  from cnn_annotation_widget_export_format [OF demo_export_succeeds]
  obtain patches ed where
    "length patches = length (points_data demo_points)"
    "fst (cnn_annotation_widget ''t'' [Image demo_layer, Points demo_points] demo_points 2 True)
        = (''annotation_'' @ ''t'' @ ''.zip'',
           map (\<lambda>i. (properties_State demo_points ! i @ ''/'' @ properties_State demo_points ! i
                       @ ''_'' @ ''t'' @ ''_'' @ str_nat i @ ''.tif'', Tiff (patches ! i)))
               [0..<length (points_data demo_points)]
           @ [(''annotation_'' @ ''t'' @ ''.json'', Text ed)])"
    "map_of ed ''labels'' = Some (JStrings (properties_State demo_points))"
    by (elim exE conjE) (rule that)
  then show ?thesis
    by (intro exI [of _ patches] exI [of _ ed]) (simp only: n s)
qed

text \<open>
  With \<^verbatim>\<open>use_visible_layers\<close> unset the JSON log has no entry for the visible image layer.
\<close>

theorem cnn_annotation_widget_unused_layers_counterexample:
  "visible demo_layer
   \<and> cnn_annotation_widget ''t'' [Image demo_layer, Points demo_points] demo_points 2 False
     = ((''annotation_t.zip'',
         [(''Metaphase/Metaphase_t_0.tif'', Tiff [[21, 22], [31, 32]]),
          (''Interphase/Interphase_t_1.tif'', Tiff [[12, 13], [22, 23]]),
          (''annotation_t.json'',
           Text [(''shape'', JInt 2),
                 (''coords-0'', JNumbers [0, 0]),
                 (''coords-1'', JNumbers [3, 5 / 2]),
                 (''coords-2'', JNumbers [2, 7 / 2]),
                 (''labels'', JStrings [''Metaphase'', ''Interphase''])])]),
        None)"
  by code_simp

text \<open>
  Claim C1 at a point outside the frame. The point \<open>(0, -3, 2)\<close> lies three rows above the
  six-row frame and its crop window covers the rows \<open>-4\<close> and \<open>-3\<close>. Both slice bounds are
  negative, so the slice counts them from the end of the frame: \<open>get_image_patch\<close> returns
  rows 2 and 3, a patch of the requested shape, and the export writes it and the JSON log
  without an exception.
\<close>

theorem cnn_annotation_widget_wraps_outside_frame:
  "get_image_patch [demo_layer] [0, - 3, 2] 2 = Inr [[21, 22], [31, 32]]
   \<and> cnn_annotation_widget ''t'' [Image demo_layer, Points outside_points] outside_points 2 True
     = ((''annotation_t.zip'',
         [(''Interphase/Interphase_t_0.tif'', Tiff [[21, 22], [31, 32]]),
          (''annotation_t.json'',
           Text [(''shape'', JInt 2),
                 (''GFP'', JObject [(''filename'', ''movie.tif'')]),
                 (''coords-0'', JNumbers [0]),
                 (''coords-1'', JNumbers [- 3]),
                 (''coords-2'', JNumbers [2]),
                 (''labels'', JStrings [''Interphase''])])]),
        None)"
  by code_simp

section \<open>From the export to the record file\<close>


















lemma image_layers_of_sample [simp]:
  "image_layers_of [Image l, Points p] = [l]"
  by (simp add: image_layers_of_def)
























end
